theory Spec2Isabelle
  imports Complex_Main "HOL-Library.AList" "HOL-Library.Sublist"
begin

section \<open>The resilient email service (email-service.js)\<close>

text \<open>
  A shallow embedding of \<^verbatim>\<open>email-service.js\<close>. The JavaScript objects become records, the
  two \<^verbatim>\<open>Map\<close>s and the breaker table become association lists updated with
  \<open>AList.update\<close> (a \<^verbatim>\<open>Map\<close> keeps insertion order and overwrites in place), an
  \<^verbatim>\<open>Error\<close> is represented by its \<^verbatim>\<open>message\<close>, and every effect is explicit:
  the record \<open>world\<close> holds the clock read by \<^verbatim>\<open>Date.now()\<close>, the log of provider
  invocations, the log of backoff timers and the log of emitted events. What the code cannot
  decide by itself (how a provider answers and how long it takes, what \<^verbatim>\<open>Math.random()\<close>
  returns, how late a timer fires, the SHA-256 digest) is supplied by an environment \<open>env\<close>.
  Counters are \<open>nat\<close> and instants in milliseconds are \<open>int\<close>; the numbers on which the
  code does fractional arithmetic (the backoff delay, the success ratio) are binary64 values,
  with the rounding of every operation written out.
  The functions \<open>sendEmail\<close> and \<open>attemptSend\<close> describe one asynchronous operation from
  its call to its completion with no other operation in between; the states that the service
  passes through when operations overlap are those of the relation \<open>engine_step\<close>, which
  takes one synchronous section of the code at a time.
  The log lines written through \<^verbatim>\<open>Logger\<close> are not modelled, nor is \<^verbatim>\<open>getWaitTime\<close>, which
  the service calls for a log line only.
\<close>

subsection \<open>Numbers\<close>

text \<open>
  A JavaScript number is an IEEE 754 binary64 value: \<^verbatim>\<open>NaN\<close>, one of the two infinities, or
  a finite value, which is a real number \<open>m * 2^e\<close> with \<open>\<bar>m\<bar> < 2^53\<close> and
  \<open>-1074 \<le> e \<le> 971\<close>. The two zeros are not told apart: nothing that is modelled here
  depends on the sign of a zero.

  \<open>rnd x\<close> is the number that an arithmetic operation returns when its exact result is
  \<open>x\<close>: the binary64 value nearest to \<open>x\<close>, the one with the even significand on a tie,
  and an infinity when the value so rounded, with the exponent unbounded, reaches \<open>2^1024\<close>
  in magnitude. The binary64 values around \<open>x\<close> are the multiples of \<open>2^(ulp_exp x)\<close>.
\<close>

datatype double = Fin real | PInf | NInf | NaN

definition ulp_exp :: "real \<Rightarrow> int" where
  "ulp_exp x = (if x = 0 then - 1074 else max (- 1074) (\<lfloor>log 2 \<bar>x\<bar>\<rfloor> - 52))"

definition round_even :: "real \<Rightarrow> int" where
  "round_even q =
     (let f = \<lfloor>q\<rfloor>
      in if q - of_int f < 1 / 2 then f
         else if 1 / 2 < q - of_int f then f + 1
         else if even f then f else f + 1)"

definition nearest64 :: "real \<Rightarrow> real" where
  "nearest64 x = of_int (round_even (x / 2 powi ulp_exp x)) * 2 powi ulp_exp x"

definition rnd :: "real \<Rightarrow> double" where
  "rnd x = (if 2 ^ 1024 \<le> nearest64 x then PInf
            else if nearest64 x \<le> - (2 ^ 1024) then NInf
            else Fin (nearest64 x))"

text \<open>\<^verbatim>\<open>a * b\<close>, \<^verbatim>\<open>a + b\<close>, \<^verbatim>\<open>a / b\<close>, \<^verbatim>\<open>a <= b\<close> and \<^verbatim>\<open>Math.min(a, b)\<close> on numbers.\<close>

fun f64_mul :: "double \<Rightarrow> double \<Rightarrow> double" where
  "f64_mul (Fin x) (Fin y) = rnd (x * y)"
| "f64_mul NaN b = NaN"
| "f64_mul a NaN = NaN"
| "f64_mul (Fin x) PInf = (if x = 0 then NaN else if 0 < x then PInf else NInf)"
| "f64_mul (Fin x) NInf = (if x = 0 then NaN else if 0 < x then NInf else PInf)"
| "f64_mul PInf (Fin y) = (if y = 0 then NaN else if 0 < y then PInf else NInf)"
| "f64_mul NInf (Fin y) = (if y = 0 then NaN else if 0 < y then NInf else PInf)"
| "f64_mul PInf PInf = PInf"
| "f64_mul PInf NInf = NInf"
| "f64_mul NInf PInf = NInf"
| "f64_mul NInf NInf = PInf"

fun f64_add :: "double \<Rightarrow> double \<Rightarrow> double" where
  "f64_add (Fin x) (Fin y) = rnd (x + y)"
| "f64_add NaN b = NaN"
| "f64_add a NaN = NaN"
| "f64_add PInf NInf = NaN"
| "f64_add NInf PInf = NaN"
| "f64_add PInf b = PInf"
| "f64_add NInf b = NInf"
| "f64_add a PInf = PInf"
| "f64_add a NInf = NInf"

fun f64_div :: "double \<Rightarrow> double \<Rightarrow> double" where
  "f64_div (Fin x) (Fin y) =
     (if y = 0 then (if x = 0 then NaN else if 0 < x then PInf else NInf) else rnd (x / y))"
| "f64_div NaN b = NaN"
| "f64_div a NaN = NaN"
| "f64_div (Fin x) b = Fin 0"
| "f64_div PInf (Fin y) = (if 0 \<le> y then PInf else NInf)"
| "f64_div NInf (Fin y) = (if 0 \<le> y then NInf else PInf)"
| "f64_div a b = NaN"

fun f64_le :: "double \<Rightarrow> double \<Rightarrow> bool" where
  "f64_le (Fin x) (Fin y) = (x \<le> y)"
| "f64_le NaN b = False"
| "f64_le a NaN = False"
| "f64_le NInf b = True"
| "f64_le a PInf = True"
| "f64_le a b = False"

definition Math_min :: "double \<Rightarrow> double \<Rightarrow> double" where
  "Math_min a b = (if a = NaN \<or> b = NaN then NaN else if f64_le a b then a else b)"

text \<open>\<^verbatim>\<open>Math.pow(2, n)\<close> for a non-negative integer \<open>n\<close>.\<close>

definition Math_pow2 :: "nat \<Rightarrow> double" where
  "Math_pow2 n = rnd (2 ^ n)"

text \<open>
  The real numbers that are finite binary64 values; \<open>grid64\<close> is the same set with the
  exponent unbounded above.
\<close>

definition grid64 :: "real \<Rightarrow> bool" where
  "grid64 x \<longleftrightarrow> (\<exists>m e. x = of_int m * 2 powi e \<and> \<bar>m\<bar> < 2 ^ 53 \<and> - 1074 \<le> e)"

definition is_double :: "real \<Rightarrow> bool" where
  "is_double x \<longleftrightarrow> grid64 x \<and> \<bar>x\<bar> < 2 ^ 1024"

subsection \<open>Data\<close>

datatype email_status = PENDING | SENT | FAILED | RETRYING | QUEUED

datatype circuit_state = CLOSED | OPEN | HALF_OPEN

type_synonym instant = int

record email =
  email_to :: string
  email_from :: string
  subject :: string
  body :: string
  idempotencyKey :: "string option"

text \<open>
  The objects stored in \<^verbatim>\<open>emailStatuses\<close> and \<^verbatim>\<open>sentEmails\<close> and returned by
  \<^verbatim>\<open>sendEmail\<close> have different sets of properties; a property an object does not have is
  \<open>None\<close>. \<open>ident\<close> is the property \<^verbatim>\<open>id\<close>; a timestamp string is represented by the
  instant it denotes.
\<close>

record result =
  ident :: "string option"
  status :: email_status
  provider :: "string option"
  currentProvider :: "string option"
  timestamp :: "instant option"
  attempts :: "nat option"
  error :: "string option"
  message :: "string option"

definition statusEntry :: "email_status \<Rightarrow> instant \<Rightarrow> nat \<Rightarrow> string option \<Rightarrow> result" where
  "statusEntry st t n cp =
     \<lparr>ident = None, status = st, provider = None, currentProvider = cp, timestamp = Some t,
      attempts = Some n, error = None, message = None\<rparr>"

datatype event =
    Sent string email result
  | Failed string email string
  | Queued string email

record world =
  clock :: instant
  calls :: "(string \<times> email) list"
  sleeps :: "double list"
  emitted :: "event list"

text \<open>What a provider's \<^verbatim>\<open>sendEmail\<close> resolves to: the delivery id and the timestamp.\<close>

record delivery =
  delivery_id :: string
  delivery_timestamp :: instant

record response =
  outcome :: "string + delivery"
  latency :: nat

record env =
  respond :: "string \<Rightarrow> email \<Rightarrow> nat \<Rightarrow> response"
  mathRandom :: "nat \<Rightarrow> real"
  lag :: "nat \<Rightarrow> nat"
  sha256 :: "string \<times> string \<times> string \<times> string \<Rightarrow> string"

record provider =
  name :: string

text \<open>
  \<^verbatim>\<open>provider.sendEmail(email)\<close>: the answer to the \<open>k\<close>-th invocation made through the
  engine is \<open>respond env name email k\<close>; the invocation is logged and takes \<open>latency\<close> ms.
\<close>

definition provider_sendEmail :: "env \<Rightarrow> provider \<Rightarrow> email \<Rightarrow> world \<Rightarrow> (string + delivery) \<times> world" where
  "provider_sendEmail env p email w =
     (let r = respond env (name p) email (length (calls w))
      in (outcome r, w\<lparr>clock := clock w + int (latency r), calls := calls w @ [(name p, email)]\<rparr>))"

subsection \<open>CircuitBreaker\<close>

record circuit_breaker =
  threshold :: nat
  timeout :: int
  failureCount :: nat
  state :: circuit_state
  nextAttempt :: instant

definition CircuitBreaker :: "nat \<Rightarrow> int \<Rightarrow> instant \<Rightarrow> circuit_breaker" where
  "CircuitBreaker th tmo now =
     \<lparr>threshold = th, timeout = tmo, failureCount = 0, state = CLOSED, nextAttempt = now\<rparr>"

definition onSuccess :: "circuit_breaker \<Rightarrow> circuit_breaker" where
  "onSuccess cb = cb\<lparr>failureCount := 0, state := CLOSED\<rparr>"

definition onFailure :: "circuit_breaker \<Rightarrow> instant \<Rightarrow> circuit_breaker" where
  "onFailure cb now =
     (let cb1 = cb\<lparr>failureCount := failureCount cb + 1\<rparr>
      in if threshold cb1 \<le> failureCount cb1
         then cb1\<lparr>state := OPEN, nextAttempt := now + timeout cb1\<rparr>
         else cb1)"

definition breakerOpenMessage :: string where
  "breakerOpenMessage = ''Circuit breaker is OPEN''"

text \<open>
  \<^verbatim>\<open>call(fn)\<close>: \<open>fn\<close> is the wrapped operation, a transformer of the world that fails
  (\<open>Inl\<close> message) or succeeds; \<^verbatim>\<open>Date.now()\<close> is the clock at entry, and in
  \<^verbatim>\<open>onFailure\<close> the clock after \<open>fn\<close> has run.
\<close>

definition call :: "circuit_breaker \<Rightarrow> (world \<Rightarrow> (string + 'a) \<times> world) \<Rightarrow> world
    \<Rightarrow> (string + 'a) \<times> circuit_breaker \<times> world" where
  "call cb fn w =
     (if state cb = OPEN \<and> clock w < nextAttempt cb then (Inl breakerOpenMessage, cb, w)
      else
        let cb1 = (if state cb = OPEN then cb\<lparr>state := HALF_OPEN\<rparr> else cb)
        in case fn w of
             (Inr res, w') \<Rightarrow> (Inr res, onSuccess cb1, w')
           | (Inl err, w') \<Rightarrow> (Inl err, onFailure cb1 (clock w'), w'))"

text \<open>
  \<^verbatim>\<open>call\<close> is an \<^verbatim>\<open>async\<close> function, and calls through the same breaker can overlap: the
  code before \<^verbatim>\<open>await fn()\<close> runs when the call arrives, the code after it when the wrapped
  operation has settled, and sections of other calls can run in between. \<open>call_enter\<close> is
  the first section, the gate, which answers whether the operation is run and marks an
  \<open>OPEN\<close> breaker \<open>HALF_OPEN\<close>; \<open>call_settle\<close> is the second section. Both act on the
  breaker as it is when they run: the object is shared by the calls in flight.
\<close>

definition call_enter :: "circuit_breaker \<Rightarrow> instant \<Rightarrow> bool \<times> circuit_breaker" where
  "call_enter cb now =
     (if state cb = OPEN \<and> now < nextAttempt cb then (False, cb)
      else (True, if state cb = OPEN then cb\<lparr>state := HALF_OPEN\<rparr> else cb))"

definition call_settle :: "circuit_breaker \<Rightarrow> bool \<Rightarrow> instant \<Rightarrow> circuit_breaker" where
  "call_settle cb ok now = (if ok then onSuccess cb else onFailure cb now)"

text \<open>Calls made one after the other through the same breaker.\<close>

fun calls_in_turn :: "circuit_breaker \<Rightarrow> (world \<Rightarrow> (string + 'a) \<times> world) list \<Rightarrow> world
    \<Rightarrow> (string + 'a) list \<times> circuit_breaker \<times> world" where
  "calls_in_turn cb [] w = ([], cb, w)"
| "calls_in_turn cb (fn # fns) w =
     (case call cb fn w of
        (r, cb', w') \<Rightarrow>
          (case calls_in_turn cb' fns w' of (rs, cb'', w'') \<Rightarrow> (r # rs, cb'', w'')))"

text \<open>
  The states of a breaker: as constructed, and after any section of any call, the sections
  taken in any order and at any time.
\<close>

inductive breaker_state :: "circuit_breaker \<Rightarrow> bool" where
  created: "breaker_state (CircuitBreaker th tmo now)"
| entered: "breaker_state cb \<Longrightarrow> breaker_state (snd (call_enter cb now))"
| settled: "breaker_state cb \<Longrightarrow> breaker_state (call_settle cb ok now)"

subsection \<open>RateLimiter\<close>

record rate_limiter =
  maxRequests :: nat
  windowMs :: int
  requests :: "instant list"

definition RateLimiter :: "nat \<Rightarrow> int \<Rightarrow> rate_limiter" where
  "RateLimiter m wd = \<lparr>maxRequests = m, windowMs = wd, requests = []\<rparr>"

definition isAllowed :: "rate_limiter \<Rightarrow> instant \<Rightarrow> bool \<times> rate_limiter" where
  "isAllowed rl now =
     (let kept = filter (\<lambda>time. now - time < windowMs rl) (requests rl)
      in if maxRequests rl \<le> length kept then (False, rl\<lparr>requests := kept\<rparr>)
         else (True, rl\<lparr>requests := kept @ [now]\<rparr>))"

text \<open>The ledger after a sequence of \<^verbatim>\<open>isAllowed\<close> calls made at the given instants.\<close>

fun admissions :: "rate_limiter \<Rightarrow> instant list \<Rightarrow> rate_limiter" where
  "admissions rl [] = rl"
| "admissions rl (now # nows) = admissions (snd (isAllowed rl now)) nows"

subsection \<open>EmailService\<close>

text \<open>
  An entry \<open>(e, k)\<close> of the deferred queue is the object \<^verbatim>\<open>{...email, idempotencyKey}\<close>:
  \<open>e\<close> is the object and \<open>k\<close> its property \<^verbatim>\<open>idempotencyKey\<close>. \<open>processing\<close> is the
  flag of \<^verbatim>\<open>processQueue\<close>.
\<close>

record service =
  providers :: "provider list"
  maxRetries :: nat
  baseDelay :: double
  maxDelay :: double
  rateLimiter :: rate_limiter
  circuitBreakers :: "(string \<times> circuit_breaker) list"
  sentEmails :: "(string \<times> result) list"
  emailStatuses :: "(string \<times> result) list"
  queue :: "(email \<times> string) list"
  processing :: bool

record rateLimit_options =
  opt_maxRequests :: "nat option"
  opt_windowMs :: "int option"

record options =
  opt_providers :: "provider list option"
  opt_maxRetries :: "nat option"
  opt_baseDelay :: "double option"
  opt_maxDelay :: "double option"
  opt_rateLimit :: "rateLimit_options option"

text \<open>
  \<^verbatim>\<open>x || d\<close> on a number: \<^verbatim>\<open>undefined\<close> and \<open>0\<close> are falsy. The constructor takes the
  clock for the breakers' \<^verbatim>\<open>nextAttempt\<close>; its call of \<^verbatim>\<open>processQueue\<close> finds the queue empty
  and only sets the timer.
\<close>

definition or_default :: "'a::zero option \<Rightarrow> 'a \<Rightarrow> 'a" where
  "or_default x d = (case x of None \<Rightarrow> d | Some v \<Rightarrow> if v = 0 then d else v)"

text \<open>\<^verbatim>\<open>x || d\<close> on a number that may be fractional: \<open>0\<close> and \<^verbatim>\<open>NaN\<close> are falsy.\<close>

definition number_or :: "double option \<Rightarrow> double \<Rightarrow> double" where
  "number_or x d = (case x of None \<Rightarrow> d | Some v \<Rightarrow> if v = Fin 0 \<or> v = NaN then d else v)"

definition EmailService :: "options \<Rightarrow> instant \<Rightarrow> service" where
  "EmailService opts now =
     (let ps = (case opt_providers opts of
                  None \<Rightarrow> [\<lparr>name = ''Provider1''\<rparr>, \<lparr>name = ''Provider2''\<rparr>]
                | Some l \<Rightarrow> l)
      in \<lparr>providers = ps,
          maxRetries = or_default (opt_maxRetries opts) 3,
          baseDelay = number_or (opt_baseDelay opts) (Fin 1000),
          maxDelay = number_or (opt_maxDelay opts) (Fin 30000),
          rateLimiter = RateLimiter
            (or_default (case opt_rateLimit opts of None \<Rightarrow> None | Some rl \<Rightarrow> opt_maxRequests rl) 100)
            (or_default (case opt_rateLimit opts of None \<Rightarrow> None | Some rl \<Rightarrow> opt_windowMs rl) 60000),
          circuitBreakers =
            foldl (\<lambda>m p. AList.update (name p) (CircuitBreaker 5 60000 now) m) [] ps,
          sentEmails = [],
          emailStatuses = [],
          queue = [],
          processing = False\<rparr>)"

text \<open>
  \<^verbatim>\<open>generateIdempotencyKey\<close>: a caller's key is used when it is truthy (a non-empty
  string); otherwise the key is the SHA-256 digest (supplied by the environment) of the
  JSON text of \<^verbatim>\<open>{to, subject, body, from}\<close>.
\<close>

definition generateIdempotencyKey :: "env \<Rightarrow> email \<Rightarrow> string" where
  "generateIdempotencyKey env email =
     (case idempotencyKey email of
        Some k \<Rightarrow> if k \<noteq> [] then k
                  else sha256 env (email_to email, subject email, body email, email_from email)
      | None \<Rightarrow> sha256 env (email_to email, subject email, body email, email_from email))"

text \<open>
  \<^verbatim>\<open>calculateBackoffDelay(attempt)\<close>, with \<open>r\<close> the value of \<^verbatim>\<open>Math.random()\<close>. Every
  operation rounds; the literal \<^verbatim>\<open>0.1\<close> is the number \<open>rnd (1 / 10)\<close>.
\<close>

definition calculateBackoffDelay :: "service \<Rightarrow> nat \<Rightarrow> real \<Rightarrow> double" where
  "calculateBackoffDelay svc attempt r =
     (let delay = f64_mul (baseDelay svc) (Math_pow2 attempt);
          jitter = f64_mul (f64_mul (Fin r) (rnd (1 / 10))) delay
      in Math_min (f64_add delay jitter) (maxDelay svc))"

text \<open>
  \<^verbatim>\<open>setTimeout(resolve, delay)\<close> on Node.js: a delay that is not a number from \<open>1\<close> to
  \<open>2^31 - 1\<close> is replaced by \<open>1\<close>, and the fraction of a millisecond is dropped.
\<close>

definition timerMs :: "double \<Rightarrow> int" where
  "timerMs d = (case d of
                  Fin x \<Rightarrow> if 1 \<le> x \<and> x \<le> 2147483647 then \<lfloor>x\<rfloor> else 1
                | PInf \<Rightarrow> 1 | NInf \<Rightarrow> 1 | NaN \<Rightarrow> 1)"

text \<open>
  \<^verbatim>\<open>await new Promise((resolve) => setTimeout(resolve, delay))\<close>: the timer is logged and
  the clock moves on by the duration of the timer and by the lag of that timer.
\<close>

definition sleep :: "env \<Rightarrow> double \<Rightarrow> world \<Rightarrow> world" where
  "sleep env delay w =
     w\<lparr>clock := clock w + timerMs delay + int (lag env (length (sleeps w))),
       sleeps := sleeps w @ [delay]\<rparr>"

text \<open>\<^verbatim>\<open>message.includes(s)\<close>.\<close>

definition str_includes :: "string \<Rightarrow> string \<Rightarrow> bool" where
  "str_includes msg s = sublist s msg"

text \<open>
  The body of the \<^verbatim>\<open>try\<close> block up to the result of \<^verbatim>\<open>circuitBreaker.call\<close>. The
  breaker object is shared through the table, so its new state is written back under the
  provider's name. A provider without a breaker makes the call itself fail with a
  \<^verbatim>\<open>TypeError\<close>, which the \<^verbatim>\<open>catch\<close> receives like any other error.
\<close>

definition breakerCall :: "env \<Rightarrow> service \<Rightarrow> provider \<Rightarrow> email \<Rightarrow> world
    \<Rightarrow> (string + delivery) \<times> service \<times> world" where
  "breakerCall env svc p email w =
     (case map_of (circuitBreakers svc) (name p) of
        None \<Rightarrow> (Inl ''Cannot read properties of undefined (reading call)'', svc, w)
      | Some cb \<Rightarrow>
          (case call cb (provider_sendEmail env p email) w of
             (r, cb', w') \<Rightarrow>
               (r, svc\<lparr>circuitBreakers := AList.update (name p) cb' (circuitBreakers svc)\<rparr>, w')))"

definition successResult :: "delivery \<Rightarrow> provider \<Rightarrow> nat \<Rightarrow> result" where
  "successResult d p attempt =
     \<lparr>ident = Some (delivery_id d), status = SENT, provider = Some (name p),
      currentProvider = None, timestamp = Some (delivery_timestamp d),
      attempts = Some (attempt + 1), error = None, message = None\<rparr>"

text \<open>The status written at the head of the \<^verbatim>\<open>try\<close> block.\<close>

definition attemptStatus :: "string \<Rightarrow> provider \<Rightarrow> nat \<Rightarrow> service \<Rightarrow> world \<Rightarrow> service" where
  "attemptStatus key p attempt svc w =
     svc\<lparr>emailStatuses := AList.update key
           (statusEntry (if attempt = 0 then PENDING else RETRYING) (clock w) (attempt + 1)
              (Some (name p)))
           (emailStatuses svc)\<rparr>"

text \<open>On success the result is cached, the status overwritten and \<^verbatim>\<open>sent\<close> emitted.\<close>

definition recordSuccess :: "string \<Rightarrow> email \<Rightarrow> result \<Rightarrow> service \<Rightarrow> world \<Rightarrow> service \<times> world" where
  "recordSuccess key email res svc w =
     (svc\<lparr>sentEmails := AList.update key res (sentEmails svc),
          emailStatuses := AList.update key res (emailStatuses svc)\<rparr>,
      w\<lparr>emitted := emitted w @ [Sent key email res]\<rparr>)"

text \<open>The wait before a retry: \<^verbatim>\<open>calculateBackoffDelay(attempt)\<close>, then the timer.\<close>

definition backoff :: "env \<Rightarrow> service \<Rightarrow> nat \<Rightarrow> world \<Rightarrow> world" where
  "backoff env svc attempt w =
     sleep env (calculateBackoffDelay svc attempt (mathRandom env (length (sleeps w)))) w"

text \<open>
  The inner loop of \<^verbatim>\<open>attemptSend\<close>, \<^verbatim>\<open>for (attempt = 0; attempt <= maxRetries; attempt++)\<close>,
  from the given attempt on. The first component is \<open>Some\<close> of the success result when the
  function returns from inside the loop, and \<open>None\<close> when the loop ends or is left by
  \<^verbatim>\<open>break\<close>; the second is \<^verbatim>\<open>lastError\<close> (its message).
\<close>

function retryLoop :: "env \<Rightarrow> email \<Rightarrow> string \<Rightarrow> provider \<Rightarrow> nat \<Rightarrow> string option
    \<Rightarrow> service \<Rightarrow> world \<Rightarrow> result option \<times> string option \<times> service \<times> world" where
  "retryLoop env email key p attempt lastError svc w =
     (if attempt \<le> maxRetries svc then
        (case breakerCall env (attemptStatus key p attempt svc w) p email w of
           (Inr d, svc2, w2) \<Rightarrow>
             (case recordSuccess key email (successResult d p attempt) svc2 w2 of
                (svc3, w3) \<Rightarrow> (Some (successResult d p attempt), lastError, svc3, w3))
         | (Inl msg, svc2, w2) \<Rightarrow>
             if str_includes msg breakerOpenMessage then (None, Some msg, svc2, w2)
             else if attempt < maxRetries svc
             then retryLoop env email key p (attempt + 1) (Some msg) svc2
                    (backoff env svc2 attempt w2)
             else (None, Some msg, svc2, w2))
      else (None, lastError, svc, w))"
  by pat_completeness auto
termination
  by (relation "measure (\<lambda>(env, email, key, p, attempt, lastError, svc, w).
        maxRetries svc + 1 - attempt)")
     (auto simp: breakerCall_def attemptStatus_def split: option.splits prod.splits)

declare retryLoop.simps [simp del]

text \<open>The outer loop of \<^verbatim>\<open>attemptSend\<close> over the providers still to be tried.\<close>

fun providersLoop :: "env \<Rightarrow> email \<Rightarrow> string \<Rightarrow> provider list \<Rightarrow> string option
    \<Rightarrow> service \<Rightarrow> world \<Rightarrow> result option \<times> string option \<times> service \<times> world" where
  "providersLoop env email key [] lastError svc w = (None, lastError, svc, w)"
| "providersLoop env email key (p # ps) lastError svc w =
     (case retryLoop env email key p 0 lastError svc w of
        (Some res, le, svc', w') \<Rightarrow> (Some res, le, svc', w')
      | (None, le, svc', w') \<Rightarrow> providersLoop env email key ps le svc' w')"

datatype exn = TypeError string

definition failureResult :: "string \<Rightarrow> string \<Rightarrow> instant \<Rightarrow> nat \<Rightarrow> result" where
  "failureResult key msg t n =
     \<lparr>ident = Some key, status = FAILED, provider = None, currentProvider = None,
      timestamp = Some t, attempts = Some n, error = Some msg, message = None\<rparr>"

text \<open>
  \<^verbatim>\<open>attemptSend(email, idempotencyKey)\<close>. When no attempt was made at all, \<^verbatim>\<open>lastError\<close>
  is \<^verbatim>\<open>undefined\<close> and reading \<^verbatim>\<open>lastError.message\<close> throws.
\<close>

definition attemptSend :: "env \<Rightarrow> email \<Rightarrow> string \<Rightarrow> service \<Rightarrow> world
    \<Rightarrow> (exn + result) \<times> service \<times> world" where
  "attemptSend env email key svc w =
     (let svc0 = svc\<lparr>emailStatuses :=
                   AList.update key (statusEntry PENDING (clock w) 0 None) (emailStatuses svc)\<rparr>
      in case providersLoop env email key (providers svc0) None svc0 w of
           (Some res, le, svc', w') \<Rightarrow> (Inr res, svc', w')
         | (None, None, svc', w') \<Rightarrow>
             (Inl (TypeError ''Cannot read properties of undefined (reading message)''), svc', w')
         | (None, Some msg, svc', w') \<Rightarrow>
             (let res = failureResult key msg (clock w') (maxRetries svc' + 1)
              in (Inr res,
                  svc'\<lparr>emailStatuses := AList.update key res (emailStatuses svc')\<rparr>,
                  w'\<lparr>emitted := emitted w' @ [Failed key email msg]\<rparr>)))"

definition queuedResult :: "string \<Rightarrow> result" where
  "queuedResult key =
     \<lparr>ident = Some key, status = QUEUED, provider = None, currentProvider = None,
      timestamp = None, attempts = None, error = None,
      message = Some ''Email queued due to rate limiting''\<rparr>"

definition sendEmail :: "env \<Rightarrow> email \<Rightarrow> service \<Rightarrow> world \<Rightarrow> (exn + result) \<times> service \<times> world" where
  "sendEmail env email svc w =
     (let key = generateIdempotencyKey env email
      in case map_of (sentEmails svc) key of
           Some cached \<Rightarrow> (Inr cached, svc, w)
         | None \<Rightarrow>
             (case isAllowed (rateLimiter svc) (clock w) of
                (False, rl) \<Rightarrow>
                  (Inr (queuedResult key),
                   svc\<lparr>rateLimiter := rl,
                       emailStatuses :=
                         AList.update key (statusEntry QUEUED (clock w) 0 None) (emailStatuses svc),
                       queue := queue svc @ [(email\<lparr>idempotencyKey := Some key\<rparr>, key)]\<rparr>,
                   w\<lparr>emitted := emitted w @ [Queued key email]\<rparr>)
              | (True, rl) \<Rightarrow> attemptSend env email key (svc\<lparr>rateLimiter := rl\<rparr>) w))"

text \<open>
  \<^verbatim>\<open>processQueue\<close>. The dispatch \<^verbatim>\<open>this.attemptSend(...)\<close> that its loop starts is not
  awaited: the loop asks the limiter again at once, while the dispatches that it has started
  wait for their providers, so the loop with its dispatches is not a function from the state
  before to the state after. \<open>drainTurn\<close> is one turn of the loop up to the dispatch: when
  the queue is not empty and the limiter admits, the head of the queue is removed and
  returned, to be dispatched by \<^verbatim>\<open>attemptSend\<close>. The turns of the loop and the sections of
  the dispatches in flight, in any order, are part of \<open>engine_step\<close> below.
\<close>

definition drainTurn :: "service \<Rightarrow> instant \<Rightarrow> (email \<times> string) option \<times> service" where
  "drainTurn svc now =
     (case queue svc of
        [] \<Rightarrow> (None, svc)
      | e # rest \<Rightarrow>
          (case isAllowed (rateLimiter svc) now of
             (True, rl) \<Rightarrow> (Some e, svc\<lparr>rateLimiter := rl, queue := rest\<rparr>)
           | (False, rl) \<Rightarrow> (None, svc\<lparr>rateLimiter := rl\<rparr>)))"

definition getEmailStatus :: "service \<Rightarrow> string \<Rightarrow> result option" where
  "getEmailStatus svc key = map_of (emailStatuses svc) key"

record provider_stats =
  statName :: string
  circuitBreakerState :: circuit_state
  statFailureCount :: nat

text \<open>\<^verbatim>\<open>getProviderStats\<close> throws when a provider has no breaker in the table.\<close>

fun providerStats :: "(string \<times> circuit_breaker) list \<Rightarrow> provider list \<Rightarrow> exn + provider_stats list" where
  "providerStats cbs [] = Inr []"
| "providerStats cbs (p # ps) =
     (case map_of cbs (name p) of
        None \<Rightarrow> Inl (TypeError ''Cannot read properties of undefined (reading state)'')
      | Some cb \<Rightarrow>
          (case providerStats cbs ps of
             Inl e \<Rightarrow> Inl e
           | Inr rest \<Rightarrow>
               Inr (\<lparr>statName = name p, circuitBreakerState = state cb,
                     statFailureCount = failureCount cb\<rparr> # rest)))"

definition getProviderStats :: "service \<Rightarrow> exn + provider_stats list" where
  "getProviderStats svc = providerStats (circuitBreakers svc) (providers svc)"

text \<open>
  \<^verbatim>\<open>x.toFixed(2)\<close> for a number \<open>x\<close> with \<open>\<bar>x\<bar> < 10^21\<close>: the integer \<open>n\<close> nearest to
  \<open>100 x\<close> (the larger one on a tie), written with a point before its last two digits. The
  rounding is that of the exact value of the number \<open>x\<close>.
\<close>

definition digit :: "nat \<Rightarrow> char" where
  "digit d = ''0123456789'' ! d"

fun digits :: "nat \<Rightarrow> string" where
  "digits n = (if n < 10 then [digit n] else digits (n div 10) @ [digit (n mod 10)])"

definition toFixed2 :: "double \<Rightarrow> string" where
  "toFixed2 d =
     (case d of
        Fin x \<Rightarrow>
          (let n = nat \<lfloor>\<bar>x\<bar> * 100 + 1 / 2\<rfloor>
           in (if x < 0 then ''-'' else []) @ digits (n div 100) @ ''.''
              @ [digit (n div 10 mod 10), digit (n mod 10)])
      | PInf \<Rightarrow> ''Infinity''
      | NInf \<Rightarrow> ''-Infinity''
      | NaN \<Rightarrow> ''NaN'')"

record stats =
  totalEmails :: nat
  sentEmailsStat :: nat
  failedEmails :: nat
  queuedEmails :: nat
  successRate :: string
  providersStat :: "provider_stats list"

definition countStatus :: "email_status \<Rightarrow> (string \<times> result) list \<Rightarrow> nat" where
  "countStatus st tab = length (filter (\<lambda>r. status r = st) (map snd tab))"

text \<open>
  \<^verbatim>\<open>getStats\<close>. The two counts are numbers (a \<^verbatim>\<open>Map\<close> holds fewer than \<open>2^53\<close> entries,
  so they are exact); the quotient and the product are rounded.
\<close>

definition getStats :: "service \<Rightarrow> exn + stats" where
  "getStats svc =
     (let total = length (emailStatuses svc);
          sent = countStatus SENT (emailStatuses svc);
          failed = countStatus FAILED (emailStatuses svc);
          queued = length (queue svc)
      in case getProviderStats svc of
           Inl e \<Rightarrow> Inl e
         | Inr ps \<Rightarrow>
             Inr \<lparr>totalEmails = total, sentEmailsStat = sent, failedEmails = failed,
                  queuedEmails = queued,
                  successRate =
                    (if total > 0
                     then toFixed2 (f64_mul (f64_div (Fin (real sent)) (Fin (real total))) (Fin 100))
                          @ ''%''
                     else ''0%''),
                  providersStat = ps\<rparr>)"

subsection \<open>Notions used in the properties\<close>

text \<open>The settings of the service that a dispatch leaves alone.\<close>

definition same_settings :: "service \<Rightarrow> service \<Rightarrow> bool" where
  "same_settings svc svc' \<longleftrightarrow>
     providers svc' = providers svc \<and> maxRetries svc' = maxRetries svc
     \<and> baseDelay svc' = baseDelay svc \<and> maxDelay svc' = maxDelay svc
     \<and> rateLimiter svc' = rateLimiter svc \<and> queue svc' = queue svc
     \<and> processing svc' = processing svc"

text \<open>The number that a text of decimal digits denotes.\<close>

definition decimal :: "string \<Rightarrow> nat" where
  "decimal s = foldl (\<lambda>a c. 10 * a + (of_char c - 48)) 0 s"

text \<open>The provider invocations logged between the world \<open>w\<close> and the later world \<open>w'\<close>.\<close>

definition invoked :: "world \<Rightarrow> world \<Rightarrow> (string \<times> email) list" where
  "invoked w w' = drop (length (calls w)) (calls w')"

text \<open>
  The tables as every operation leaves them: each key occurs once in the status table, a
  status \<open>SENT\<close> is the very object held by the success cache under the same key, and
  every provider has a breaker under its name.
\<close>

definition registry_inv :: "service \<Rightarrow> bool" where
  "registry_inv svc \<longleftrightarrow>
     distinct (map fst (emailStatuses svc))
     \<and> (\<forall>k r. map_of (emailStatuses svc) k = Some r \<longrightarrow> status r = SENT \<longrightarrow>
            map_of (sentEmails svc) k = Some r)
     \<and> name ` set (providers svc) \<subseteq> fst ` set (circuitBreakers svc)"

text \<open>
  The synchronous sections of the code that write to the state of the service, each with the
  key of the message on whose behalf it runs. Between two \<^verbatim>\<open>await\<close>s the code runs without
  interruption; at an \<^verbatim>\<open>await\<close> the sections of other operations in flight (submissions,
  dispatches started by the drain worker) can run. The sections are: the call of
  \<^verbatim>\<open>rateLimiter.isAllowed()\<close> in \<^verbatim>\<open>sendEmail\<close> and in \<^verbatim>\<open>processQueue\<close>; the queueing of a
  submission; in \<^verbatim>\<open>attemptSend\<close> the first status, the status at the head of an attempt, the
  two sections of the breaker's \<^verbatim>\<open>call\<close>, the recording of a success (cache and status are
  written with no \<^verbatim>\<open>await\<close> in between) and the recording of the failure; in
  \<^verbatim>\<open>processQueue\<close> the removal of the head of the queue and the setting of the flag. Each
  rule takes its parameters (time, provider, attempt, outcome) arbitrary, so that every run
  of the code, however its operations overlap, is a sequence of such steps.
\<close>

inductive engine_step :: "string \<Rightarrow> service \<Rightarrow> service \<Rightarrow> bool" where
  limiter: "engine_step key svc (svc\<lparr>rateLimiter := snd (isAllowed (rateLimiter svc) now)\<rparr>)"
| queued: "engine_step key svc
     (svc\<lparr>emailStatuses := AList.update key (statusEntry QUEUED now 0 None) (emailStatuses svc),
          queue := queue svc @ [(email\<lparr>idempotencyKey := Some key\<rparr>, key)]\<rparr>)"
| pending: "engine_step key svc
     (svc\<lparr>emailStatuses := AList.update key (statusEntry PENDING now 0 None) (emailStatuses svc)\<rparr>)"
| attempt: "engine_step key svc (attemptStatus key p attempt svc w)"
| enter: "map_of (circuitBreakers svc) (name (p::provider)) = Some cb \<Longrightarrow>
     engine_step key svc
       (svc\<lparr>circuitBreakers := AList.update (name p) (snd (call_enter cb now)) (circuitBreakers svc)\<rparr>)"
| settle: "map_of (circuitBreakers svc) (name (p::provider)) = Some cb \<Longrightarrow>
     engine_step key svc
       (svc\<lparr>circuitBreakers := AList.update (name p) (call_settle cb ok now) (circuitBreakers svc)\<rparr>)"
| success: "engine_step key svc (fst (recordSuccess key email (successResult d p attempt) svc w))"
| failed: "engine_step key svc
     (svc\<lparr>emailStatuses := AList.update key (failureResult key msg now n) (emailStatuses svc)\<rparr>)"
| dequeue: "queue svc = e # rest \<Longrightarrow> engine_step (snd e) svc (svc\<lparr>queue := rest\<rparr>)"
| flag: "engine_step key svc (svc\<lparr>processing := b\<rparr>)"

text \<open>
  The states of a service: as constructed, and after any number of steps, on behalf of any
  messages, in any order.
\<close>

inductive engine_state :: "service \<Rightarrow> bool" where
  constructed: "engine_state (EmailService opts now)"
| step: "engine_state svc \<Longrightarrow> engine_step key svc svc' \<Longrightarrow> engine_state svc'"

text \<open>When the loop returns a result: what the result is and where it is stored.\<close>

definition delivered_by :: "env \<Rightarrow> email \<Rightarrow> string \<Rightarrow> string \<Rightarrow> result \<Rightarrow> service \<Rightarrow> world \<Rightarrow> bool" where
  "delivered_by env email key pn res svc' w' \<longleftrightarrow>
     status res = SENT \<and> provider res = Some pn
     \<and> map_of (emailStatuses svc') key = Some res \<and> map_of (sentEmails svc') key = Some res
     \<and> calls w' \<noteq> [] \<and> last (calls w') = (pn, email)
     \<and> (\<exists>d. outcome (respond env pn email (length (calls w') - 1)) = Inr d
            \<and> ident res = Some (delivery_id d))"

subsection \<open>Concrete inputs\<close>

definition world0 :: world where
  "world0 = \<lparr>clock = 0, calls = [], sleeps = [], emitted = []\<rparr>"

definition failingOp :: "world \<Rightarrow> (string + delivery) \<times> world" where
  "failingOp w = (Inl ''boom'', w\<lparr>clock := clock w + 10\<rparr>)"

definition workingOp :: "world \<Rightarrow> (string + delivery) \<times> world" where
  "workingOp w = (Inr \<lparr>delivery_id = ''d1'', delivery_timestamp = clock w + 10\<rparr>,
                  w\<lparr>clock := clock w + 10\<rparr>)"

definition openBreaker :: circuit_breaker where
  "openBreaker = \<lparr>threshold = 2, timeout = 100, failureCount = 2, state = OPEN, nextAttempt = 150\<rparr>"

definition defaultOptions :: options where
  "defaultOptions = \<lparr>opt_providers = None, opt_maxRetries = None, opt_baseDelay = None,
                      opt_maxDelay = None, opt_rateLimit = None\<rparr>"

definition exampleEmail :: email where
  "exampleEmail = \<lparr>email_to = ''a@x'', email_from = ''b@y'', subject = ''s'', body = ''b'',
                    idempotencyKey = Some ''order-1''\<rparr>"

text \<open>
  An environment in which the provider \<open>Bad\<close> always fails, \<open>Liar\<close> always fails with a
  description that quotes the breaker's message, and every other provider delivers.
\<close>

definition exampleEnv :: env where
  "exampleEnv =
     \<lparr>respond = (\<lambda>n e k.
         if n = ''Bad'' then \<lparr>outcome = Inl ''Bad provider failed to send email'', latency = 10\<rparr>
         else if n = ''Liar'' then \<lparr>outcome = Inl ''upstream: Circuit breaker is OPEN'', latency = 10\<rparr>
         else \<lparr>outcome = Inr \<lparr>delivery_id = ''uuid-1'', delivery_timestamp = 5\<rparr>, latency = 10\<rparr>),
      mathRandom = (\<lambda>k. 1 / 2),
      lag = (\<lambda>k. 0),
      sha256 = (\<lambda>(t, s, b, f). ''#'' @ t @ s @ b @ f)\<rparr>"

definition exampleOptions :: options where
  "exampleOptions =
     \<lparr>opt_providers = Some [\<lparr>name = ''Bad''\<rparr>, \<lparr>name = ''Good''\<rparr>], opt_maxRetries = Some 1,
      opt_baseDelay = None, opt_maxDelay = None,
      opt_rateLimit = Some \<lparr>opt_maxRequests = Some 1, opt_windowMs = Some 1000\<rparr>\<rparr>"

definition exampleService :: service where
  "exampleService = EmailService exampleOptions 0"

definition exampleDispatch :: "(exn + result) \<times> service \<times> world" where
  "exampleDispatch = attemptSend exampleEnv exampleEmail ''order-1'' exampleService world0"

text \<open>The same service with the breaker of \<open>Bad\<close> open until the instant \<open>150\<close>.\<close>

definition openService :: service where
  "openService =
     exampleService\<lparr>circuitBreakers := [(''Bad'', openBreaker), (''Good'', CircuitBreaker 5 60000 0)]\<rparr>"

definition liarService :: service where
  "liarService =
     EmailService (exampleOptions\<lparr>opt_providers := Some [\<lparr>name = ''Liar''\<rparr>, \<lparr>name = ''Good''\<rparr>]\<rparr>) 0"

definition exampleSubmit :: "(exn + result) \<times> service \<times> world" where
  "exampleSubmit = sendEmail exampleEnv exampleEmail exampleService world0"

definition exampleSent :: result where
  "exampleSent = successResult \<lparr>delivery_id = ''uuid-1'', delivery_timestamp = 5\<rparr> \<lparr>name = ''Good''\<rparr> 0"

text \<open>
  An environment in which the first two invocations fail and every later one delivers,
  under a delivery id that tells the invocations apart.
\<close>

definition flakyEnv :: env where
  "flakyEnv =
     \<lparr>respond = (\<lambda>n e k.
         if k < 2 then \<lparr>outcome = Inl ''temporary outage'', latency = 10\<rparr>
         else \<lparr>outcome = Inr \<lparr>delivery_id = ''uuid-'' @ digits k, delivery_timestamp = 7\<rparr>,
               latency = 10\<rparr>),
      mathRandom = (\<lambda>k. 1 / 2),
      lag = (\<lambda>k. 0),
      sha256 = (\<lambda>(t, s, b, f). ''#'' @ t @ s @ b @ f)\<rparr>"

definition flakyOptions :: options where
  "flakyOptions =
     \<lparr>opt_providers = Some [\<lparr>name = ''P1''\<rparr>], opt_maxRetries = Some 1,
      opt_baseDelay = None, opt_maxDelay = None, opt_rateLimit = None\<rparr>"

definition flakyFirst :: "(exn + result) \<times> service \<times> world" where
  "flakyFirst = sendEmail flakyEnv exampleEmail (EmailService flakyOptions 0) world0"

definition flakySecond :: "(exn + result) \<times> service \<times> world" where
  "flakySecond = sendEmail flakyEnv exampleEmail (fst (snd flakyFirst)) (snd (snd flakyFirst))"

text \<open>A service with one working provider that admits one submission per minute.\<close>

definition queueOptions :: options where
  "queueOptions =
     \<lparr>opt_providers = Some [\<lparr>name = ''Good''\<rparr>], opt_maxRetries = None,
      opt_baseDelay = None, opt_maxDelay = None,
      opt_rateLimit = Some \<lparr>opt_maxRequests = Some 1, opt_windowMs = None\<rparr>\<rparr>"

definition queueService :: service where
  "queueService = EmailService queueOptions 0"

definition secondEmail :: email where
  "secondEmail = \<lparr>email_to = ''c@x'', email_from = ''b@y'', subject = ''t'', body = ''b'',
                   idempotencyKey = Some ''order-2''\<rparr>"

definition queueRun1 :: "(exn + result) \<times> service \<times> world" where
  "queueRun1 = sendEmail exampleEnv exampleEmail queueService world0"

definition queueRun2 :: "(exn + result) \<times> service \<times> world" where
  "queueRun2 = sendEmail exampleEnv secondEmail (fst (snd queueRun1)) (snd (snd queueRun1))"

definition queueRun3 :: "(exn + result) \<times> service \<times> world" where
  "queueRun3 = sendEmail exampleEnv secondEmail (fst (snd queueRun2)) (snd (snd queueRun2))"

text \<open>A provider that uses the caller's idempotency key as its delivery id.\<close>

definition echoEnv :: env where
  "echoEnv =
     \<lparr>respond = (\<lambda>n e k.
         \<lparr>outcome = Inr \<lparr>delivery_id = (case idempotencyKey e of Some i \<Rightarrow> i | None \<Rightarrow> ''none''),
                          delivery_timestamp = 5\<rparr>,
          latency = 10\<rparr>),
      mathRandom = (\<lambda>k. 1 / 2),
      lag = (\<lambda>k. 0),
      sha256 = (\<lambda>(t, s, b, f). ''#'' @ t @ s @ b @ f)\<rparr>"

definition echoRun :: "(exn + result) \<times> service \<times> world" where
  "echoRun = sendEmail echoEnv exampleEmail queueService world0"

text \<open>
  A service with one provider that admits one submission per minute, in the environment
  where the first two invocations fail: a first message fails, a second one is queued,
  submitted again a minute later and sent, and a minute after that the drain worker takes
  the entry from the queue and dispatches it.
\<close>

definition drainOptions :: options where
  "drainOptions =
     \<lparr>opt_providers = Some [\<lparr>name = ''P1''\<rparr>], opt_maxRetries = Some 1,
      opt_baseDelay = None, opt_maxDelay = None,
      opt_rateLimit = Some \<lparr>opt_maxRequests = Some 1, opt_windowMs = None\<rparr>\<rparr>"

definition drainRun1 :: "(exn + result) \<times> service \<times> world" where
  "drainRun1 = sendEmail flakyEnv exampleEmail (EmailService drainOptions 0) world0"

definition drainRun2 :: "(exn + result) \<times> service \<times> world" where
  "drainRun2 = sendEmail flakyEnv secondEmail (fst (snd drainRun1)) (snd (snd drainRun1))"

definition drainRun3 :: "(exn + result) \<times> service \<times> world" where
  "drainRun3 =
     sendEmail flakyEnv secondEmail (fst (snd drainRun2)) ((snd (snd drainRun2))\<lparr>clock := 61000\<rparr>)"

definition drainRun4 :: "(exn + result) \<times> service \<times> world" where
  "drainRun4 =
     attemptSend flakyEnv secondEmail ''order-2'' (snd (drainTurn (fst (snd drainRun3)) 125000))
       ((snd (snd drainRun3))\<lparr>clock := 125000\<rparr>)"

text \<open>A service with one provider, configured for no retry, and a submission to it.\<close>

definition zeroRetryOptions :: options where
  "zeroRetryOptions =
     \<lparr>opt_providers = Some [\<lparr>name = ''Bad''\<rparr>], opt_maxRetries = Some 0,
      opt_baseDelay = None, opt_maxDelay = None, opt_rateLimit = None\<rparr>"

definition zeroRetryRun :: "(exn + result) \<times> service \<times> world" where
  "zeroRetryRun = sendEmail exampleEnv exampleEmail (EmailService zeroRetryOptions 0) world0"

section \<open>Properties\<close>

subsection \<open>Rounding to binary64\<close>

lemma round_even_cases: "round_even q = \<lfloor>q\<rfloor> \<or> round_even q = \<lfloor>q\<rfloor> + 1"
  by (simp add: round_even_def Let_def)

lemma round_even_half: "\<bar>of_int (round_even q) - q\<bar> \<le> 1 / 2"
  unfolding round_even_def Let_def by (auto simp: abs_if) linarith+

lemma round_even_nearest: "\<bar>of_int (round_even q) - q\<bar> \<le> \<bar>of_int j - q\<bar>"
proof (cases "j = round_even q")
  case True
  then show ?thesis by simp
next
  case False
  have h: "\<bar>of_int (round_even q) - q\<bar> \<le> 1 / 2" by (rule round_even_half)
  from False have "1 \<le> \<bar>j - round_even q\<bar>" by simp
  then have "1 \<le> \<bar>(of_int j :: real) - of_int (round_even q)\<bar>"
    by (metis of_int_1_le_iff of_int_abs of_int_diff)
  with h show ?thesis by linarith
qed

lemma round_even_int [simp]: "round_even (of_int j) = j"
  by (simp add: round_even_def)

lemma round_even_mono: "x \<le> y \<Longrightarrow> round_even x \<le> round_even y"
proof -
  assume xy: "x \<le> y"
  show ?thesis
  proof (rule ccontr)
    assume "\<not> round_even x \<le> round_even y"
    then have lt: "round_even y + 1 \<le> round_even x" by simp
    then have r: "(of_int (round_even y) :: real) + 1 \<le> of_int (round_even x)"
      by (metis of_int_1 of_int_add of_int_le_iff)
    have hx: "\<bar>of_int (round_even x) - x\<bar> \<le> 1 / 2" and hy: "\<bar>of_int (round_even y) - y\<bar> \<le> 1 / 2"
      by (rule round_even_half)+
    from r hx hy xy have e: "x = y" by linarith
    with lt show False by simp
  qed
qed


lemma p2_less_iff: "(2::real) powi a < 2 powi b \<longleftrightarrow> a < b"
proof
  assume l: "(2::real) powi a < 2 powi b"
  show "a < b"
  proof (rule ccontr)
    assume "\<not> a < b"
    then have "b \<le> a" by simp
    then have "(2::real) powi b \<le> 2 powi a" by (rule power_int_increasing) simp
    with l show False by simp
  qed
next
  assume "a < b"
  then show "(2::real) powi a < 2 powi b" by (rule power_int_strict_increasing) simp
qed

lemma p2_le_iff: "(2::real) powi a \<le> 2 powi b \<longleftrightarrow> a \<le> b"
  using p2_less_iff [of b a] by (simp add: not_less [symmetric])

lemma powr_powi: "2 powr (real_of_int k) = (2::real) powi k"
  by (simp add: powr_real_of_int')

lemma powr_powi1: "2 powr (real_of_int k + 1) = (2::real) powi (k + 1)"
  using powr_powi [of "k + 1"] by (simp add: add.commute)

lemma floor_log2_iff:
  assumes "0 < x"
  shows "\<lfloor>log 2 x\<rfloor> = k \<longleftrightarrow> 2 powi k \<le> x \<and> x < 2 powi (k + 1)"
  using floor_log_eq_powr_iff [of x 2 k] assms by (simp add: powr_powi powr_powi1)

lemma ulp_exp_bounds:
  assumes "x \<noteq> 0"
  shows "\<exists>k. 2 powi k \<le> \<bar>x\<bar> \<and> \<bar>x\<bar> < 2 powi (k + 1) \<and> ulp_exp x = max (- 1074) (k - 52)"
proof -
  define k where "k = \<lfloor>log 2 \<bar>x\<bar>\<rfloor>"
  have pos: "0 < \<bar>x\<bar>" using assms by simp
  have "2 powi k \<le> \<bar>x\<bar> \<and> \<bar>x\<bar> < 2 powi (k + 1)"
    using floor_log2_iff [OF pos, of k] by (simp add: k_def)
  moreover have "ulp_exp x = max (- 1074) (k - 52)"
    using assms by (simp add: ulp_exp_def k_def)
  ultimately show ?thesis by blast
qed

lemma ulp_exp_eq:
  assumes "2 powi k \<le> \<bar>x\<bar>" and "\<bar>x\<bar> < 2 powi (k + 1)"
  shows "ulp_exp x = max (- 1074) (k - 52)"
proof -
  have "(0::real) < 2 powi k" by simp
  with assms(1) have pos: "0 < \<bar>x\<bar>" by linarith
  then have x: "x \<noteq> 0" by auto
  have "\<lfloor>log 2 \<bar>x\<bar>\<rfloor> = k"
    using floor_log2_iff [OF pos, of k] assms by simp
  with x show ?thesis by (simp add: ulp_exp_def)
qed

lemma ulp_exp_ge: "- 1074 \<le> ulp_exp x"
  by (simp add: ulp_exp_def)

text \<open>Multiples of the spacing.\<close>

lemma nearest64_multiple:
  "\<bar>nearest64 x - x\<bar> \<le> \<bar>of_int j * 2 powi ulp_exp x - x\<bar>"
proof -
  define u :: real where "u = 2 powi ulp_exp x"
  have u: "0 < u" by (simp add: u_def)
  have "\<bar>nearest64 x - x\<bar> = \<bar>of_int (round_even (x / u)) - x / u\<bar> * u"
  proof -
    have "nearest64 x - x = (of_int (round_even (x / u)) - x / u) * u"
      using u by (simp add: nearest64_def u_def [symmetric] left_diff_distrib)
    then show ?thesis using u by (simp add: abs_mult)
  qed
  also have "\<dots> \<le> \<bar>of_int j - x / u\<bar> * u"
    using u round_even_nearest [of "x / u" j] by (simp add: mult_right_mono)
  also have "\<dots> = \<bar>of_int j * u - x\<bar>"
  proof -
    have "of_int j * u - x = (of_int j - x / u) * u"
      using u by (simp add: left_diff_distrib)
    then show ?thesis using u by (simp add: abs_mult)
  qed
  finally show ?thesis by (simp add: u_def)
qed

lemma nearest64_zero [simp]: "nearest64 0 = 0"
  using round_even_int [of 0] by (simp add: nearest64_def)

lemma grid64_multiple:
  assumes "grid64 d" and "x \<noteq> 0" and "2 powi k \<le> \<bar>x\<bar>" and "\<bar>x\<bar> < 2 powi (k + 1)"
    and "2 powi k \<le> \<bar>d\<bar> \<or> k - 52 \<le> - 1074"
  shows "\<exists>j. d = of_int j * 2 powi ulp_exp x"
proof -
  from assms(1) obtain m e where d: "d = of_int m * 2 powi e" and m: "\<bar>m\<bar> < 2 ^ 53" and e: "- 1074 \<le> e"
    by (auto simp: grid64_def)
  have E: "ulp_exp x = max (- 1074) (k - 52)" by (rule ulp_exp_eq [OF assms(3,4)])
  have "ulp_exp x \<le> e \<or> d = 0"
  proof (cases "k - 52 \<le> - 1074")
    case True
    with E e show ?thesis by simp
  next
    case False
    with assms(5) have kd: "2 powi k \<le> \<bar>d\<bar>" by simp
    from False E have E': "ulp_exp x = k - 52" by simp
    have "\<bar>d\<bar> = real_of_int \<bar>m\<bar> * 2 powi e" by (simp add: d abs_mult)
    also have "\<dots> < 2 ^ 53 * 2 powi e"
    proof -
      have "real_of_int \<bar>m\<bar> < 2 ^ 53" using m by (metis of_int_less_iff of_int_numeral of_int_power)
      then show ?thesis by (simp add: mult_strict_right_mono)
    qed
    also have "\<dots> = 2 powi (e + 53)" by (simp add: power_int_add)
    finally have "\<bar>d\<bar> < 2 powi (e + 53)" .
    with kd have "(2::real) powi k < 2 powi (e + 53)" by linarith
    then have "k < e + 53" by (simp add: p2_less_iff)
    with E' show ?thesis by simp
  qed
  then show ?thesis
  proof
    assume "d = 0"
    then show ?thesis by (intro exI [of _ 0]) simp
  next
    assume le: "ulp_exp x \<le> e"
    define n where "n = nat (e - ulp_exp x)"
    have en: "e = ulp_exp x + int n" using le by (simp add: n_def)
    have "d = of_int (m * 2 ^ n) * 2 powi ulp_exp x"
      by (simp add: d en power_int_add)
    then show ?thesis by blast
  qed
qed


lemma nearest64_nearest:
  assumes "grid64 d"
  shows "\<bar>nearest64 x - x\<bar> \<le> \<bar>d - x\<bar>"
proof (cases "x = 0")
  case True
  then show ?thesis by simp
next
  case False
  from ulp_exp_bounds [OF False] obtain k where k: "2 powi k \<le> \<bar>x\<bar>" "\<bar>x\<bar> < 2 powi (k + 1)"
    and E: "ulp_exp x = max (- 1074) (k - 52)" by blast
  show ?thesis
  proof (cases "2 powi k \<le> \<bar>d\<bar> \<or> k - 52 \<le> - 1074")
    case True
    from grid64_multiple [OF assms False k True] obtain j where "d = of_int j * 2 powi ulp_exp x" ..
    then show ?thesis using nearest64_multiple [of x j] by simp
  next
    case F: False
    then have dk: "\<bar>d\<bar> < 2 powi k" and E': "ulp_exp x = k - 52" using E by auto
    have p: "(2::real) powi k = 2 ^ 52 * 2 powi ulp_exp x"
      by (simp add: E' power_int_diff)
    show ?thesis
    proof (cases "0 < x")
      case True
      have "\<bar>nearest64 x - x\<bar> \<le> \<bar>of_int (2 ^ 52) * 2 powi ulp_exp x - x\<bar>"
        by (rule nearest64_multiple)
      also have "\<dots> = \<bar>2 powi k - x\<bar>" by (simp add: p)
      also have "\<dots> \<le> \<bar>d - x\<bar>" using k dk True by linarith
      finally show ?thesis .
    next
      case N: False
      have "\<bar>nearest64 x - x\<bar> \<le> \<bar>of_int (- (2 ^ 52)) * 2 powi ulp_exp x - x\<bar>"
        by (rule nearest64_multiple)
      also have "\<dots> = \<bar>- (2 powi k) - x\<bar>" by (simp add: p)
      also have "\<dots> \<le> \<bar>d - x\<bar>" using k dk N by linarith
      finally show ?thesis .
    qed
  qed
qed

lemma nearest64_half_ulp: "\<bar>nearest64 x - x\<bar> \<le> 2 powi ulp_exp x / 2"
proof -
  define u :: real where "u = 2 powi ulp_exp x"
  have u: "0 < u" by (simp add: u_def)
  have "nearest64 x - x = (of_int (round_even (x / u)) - x / u) * u"
    using u by (simp add: nearest64_def u_def [symmetric] left_diff_distrib)
  then have "\<bar>nearest64 x - x\<bar> = \<bar>of_int (round_even (x / u)) - x / u\<bar> * u"
    using u by (simp add: abs_mult)
  also have "\<dots> \<le> 1 / 2 * u"
    using u round_even_half [of "x / u"] by (intro mult_right_mono) simp_all
  finally show ?thesis by (simp add: u_def)
qed

lemma grid64_nearest64: "grid64 (nearest64 x)"
proof (cases "x = 0")
  case True
  have "(0::real) = of_int 0 * 2 powi 0" by simp
  then have "grid64 0" unfolding grid64_def by (intro exI [of _ 0]) simp
  with True show ?thesis by simp
next
  case False
  from ulp_exp_bounds [OF False] obtain k where k: "2 powi k \<le> \<bar>x\<bar>" "\<bar>x\<bar> < 2 powi (k + 1)"
    and E: "ulp_exp x = max (- 1074) (k - 52)" by blast
  define u :: real where "u = 2 powi ulp_exp x"
  define n where "n = round_even (x / u)"
  have u: "0 < u" by (simp add: u_def)
  have "(2::real) powi (k + 1) \<le> 2 powi (ulp_exp x + 53)"
    using E by (simp add: p2_le_iff)
  also have "\<dots> = 2 ^ 53 * u" by (simp add: u_def power_int_add)
  finally have "\<bar>x\<bar> < 2 ^ 53 * u" using k(2) by linarith
  then have q: "\<bar>x / u\<bar> < 2 ^ 53" using u by (simp add: pos_divide_less_eq)
  have "\<bar>real_of_int n - x / u\<bar> \<le> 1 / 2" unfolding n_def by (rule round_even_half)
  with q have "\<bar>real_of_int n\<bar> < 2 ^ 53 + 1" by linarith
  then have "real_of_int \<bar>n\<bar> < real_of_int (2 ^ 53 + 1)" by simp
  then have "\<bar>n\<bar> < 2 ^ 53 + 1" by (simp only: of_int_less_iff)
  then have n: "\<bar>n\<bar> \<le> 2 ^ 53" by simp
  have v: "nearest64 x = of_int n * u" by (simp add: nearest64_def n_def u_def)
  show ?thesis
  proof (cases "\<bar>n\<bar> < 2 ^ 53")
    case True
    with v ulp_exp_ge [of x] show ?thesis unfolding grid64_def u_def by blast
  next
    case F: False
    with n have "\<bar>n\<bar> = 2 ^ 53" by simp
    then have "n = 2 ^ 53 \<or> n = - (2 ^ 53)" by linarith
    then have "nearest64 x = of_int (n div 2) * 2 powi (ulp_exp x + 1)"
      by (auto simp: v u_def power_int_add)
    moreover have "\<bar>n div 2\<bar> < 2 ^ 53" using \<open>n = 2 ^ 53 \<or> n = - (2 ^ 53)\<close> by auto
    moreover have "- 1074 \<le> ulp_exp x + 1" using ulp_exp_ge [of x] by simp
    ultimately show ?thesis unfolding grid64_def by blast
  qed
qed

lemma nearest64_mono:
  assumes "x \<le> y"
  shows "nearest64 x \<le> nearest64 y"
proof (rule ccontr)
  assume "\<not> nearest64 x \<le> nearest64 y"
  then have lt: "nearest64 y < nearest64 x" by simp
  have 1: "\<bar>nearest64 x - x\<bar> \<le> \<bar>nearest64 y - x\<bar>"
    by (rule nearest64_nearest [OF grid64_nearest64])
  have 2: "\<bar>nearest64 y - y\<bar> \<le> \<bar>nearest64 x - y\<bar>"
    by (rule nearest64_nearest [OF grid64_nearest64])
  from lt 1 2 assms have "x = y" by linarith
  with lt show False by simp
qed

lemma nearest64_exact: "grid64 d \<Longrightarrow> nearest64 d = d"
  using nearest64_nearest [of d d] by simp

lemma nearest64_nonneg: "0 \<le> x \<Longrightarrow> 0 \<le> nearest64 x"
  using nearest64_mono [of 0 x] by simp

lemma nearest64_relative:
  assumes "2 powi (- 1022) \<le> \<bar>x\<bar>"
  shows "\<bar>nearest64 x - x\<bar> \<le> \<bar>x\<bar> / 2 ^ 53"
proof -
  have "(0::real) < 2 powi (- 1022)" by (rule zero_less_power_int) simp
  with assms have x: "x \<noteq> 0" by auto
  from ulp_exp_bounds [OF x] obtain k where k: "2 powi k \<le> \<bar>x\<bar>" "\<bar>x\<bar> < 2 powi (k + 1)"
    and E: "ulp_exp x = max (- 1074) (k - 52)" by blast
  from assms k(2) have "(2::real) powi (- 1022) < 2 powi (k + 1)" by linarith
  then have "- 1022 < k + 1" by (simp only: p2_less_iff)
  with E have E': "ulp_exp x = k - 52" by simp
  have "\<bar>nearest64 x - x\<bar> \<le> 2 powi ulp_exp x / 2" by (rule nearest64_half_ulp)
  also have "\<dots> = 2 powi k / 2 ^ 53" by (simp add: E' power_int_diff)
  also have "\<dots> \<le> \<bar>x\<bar> / 2 ^ 53" using k(1) by (simp add: divide_right_mono)
  finally show ?thesis .
qed

lemma nearest64_eval:
  assumes "2 powi k \<le> \<bar>x\<bar>" and "\<bar>x\<bar> < 2 powi (k + 1)"
  shows "nearest64 x = of_int (round_even (x / 2 powi max (- 1074) (k - 52))) * 2 powi max (- 1074) (k - 52)"
  by (simp add: nearest64_def ulp_exp_eq [OF assms])

lemma grid64_int: "\<bar>n\<bar> < 2 ^ 53 \<Longrightarrow> grid64 (of_int n)"
  unfolding grid64_def by (intro exI [of _ n] exI [of _ 0]) simp

lemma is_double_int: "\<bar>n\<bar> < 2 ^ 53 \<Longrightarrow> is_double (of_int n)"
proof -
  assume n: "\<bar>n\<bar> < 2 ^ 53"
  then have "real_of_int \<bar>n\<bar> < real_of_int (2 ^ 53)" by (simp only: of_int_less_iff)
  then have "\<bar>real_of_int n\<bar> < 2 ^ 1024" by simp
  with grid64_int [OF n] show ?thesis by (simp add: is_double_def)
qed

lemma rnd_exact: "is_double x \<Longrightarrow> rnd x = Fin x"
  by (auto simp: is_double_def rnd_def nearest64_exact)

lemma grid64_scale: "grid64 y \<Longrightarrow> grid64 (y * 2 ^ n)"
proof -
  assume "grid64 y"
  then obtain m e where y: "y = of_int m * 2 powi e" and m: "\<bar>m\<bar> < 2 ^ 53" and e: "- 1074 \<le> e"
    by (auto simp: grid64_def)
  have "y * 2 ^ n = of_int m * 2 powi (e + int n)"
    by (simp add: y power_int_add)
  moreover have "- 1074 \<le> e + int n" using e by simp
  ultimately show ?thesis using m unfolding grid64_def by blast
qed

lemma grid64_pow2: "grid64 (2 ^ n)"
  using grid64_scale [OF grid64_int [of 1], of n] by simp

lemma rnd_Fin: "\<bar>nearest64 x\<bar> < 2 ^ 1024 \<Longrightarrow> rnd x = Fin (nearest64 x)"
  by (simp add: rnd_def abs_less_iff not_le)

lemma Math_pow2_exact: "n \<le> 1023 \<Longrightarrow> Math_pow2 n = Fin (2 ^ n)"
proof -
  assume "n \<le> 1023"
  then have "(2::real) ^ n \<le> 2 ^ 1023" by (intro power_increasing) simp_all
  then have "\<bar>(2::real) ^ n\<bar> < 2 ^ 1024" by simp
  with grid64_pow2 [of n] show ?thesis
    unfolding Math_pow2_def by (intro rnd_exact) (simp add: is_double_def)
qed

lemma tenth: "nearest64 (1 / 10) = 3602879701896397 / 2 ^ 55"
  by (subst nearest64_eval [where k = "- 4"]) (simp_all add: round_even_def)

lemma grid64_minus: "grid64 y \<Longrightarrow> grid64 (- y)"
proof -
  assume "grid64 y"
  then obtain m e where y: "y = of_int m * 2 powi e" and m: "\<bar>m\<bar> < 2 ^ 53" and e: "- 1074 \<le> e"
    by (auto simp: grid64_def)
  have "- y = of_int (- m) * 2 powi e" by (simp add: y)
  moreover have "\<bar>- m\<bar> < 2 ^ 53" using m by simp
  ultimately show ?thesis using e unfolding grid64_def by blast
qed

lemma grid64_powi: "- 1074 \<le> e \<Longrightarrow> grid64 (2 powi e)"
  unfolding grid64_def by (intro exI [of _ 1] exI [of _ e]) simp

lemma nearest64_abs_le:
  assumes "\<bar>x\<bar> \<le> d" and "grid64 d"
  shows "\<bar>nearest64 x\<bar> \<le> d"
proof -
  have "x \<le> d" and "- d \<le> x" using assms(1) by linarith+
  from nearest64_mono [OF this(1)] nearest64_mono [OF this(2)]
  have "nearest64 x \<le> d" and "- d \<le> nearest64 x"
    by (simp_all add: nearest64_exact [OF assms(2)] nearest64_exact [OF grid64_minus [OF assms(2)]])
  then show ?thesis by linarith
qed

lemma rnd_eval:
  assumes "2 powi k \<le> \<bar>x\<bar>" and "\<bar>x\<bar> < 2 powi (k + 1)" and "- 1022 \<le> k" and "k < 1023"
  shows "rnd x = Fin (of_int (round_even (x / 2 powi (k - 52))) * 2 powi (k - 52))"
proof -
  have e: "max (- 1074) (k - 52) = k - 52" using assms(3) by simp
  have v: "nearest64 x = of_int (round_even (x / 2 powi (k - 52))) * 2 powi (k - 52)"
    using nearest64_eval [OF assms(1,2)] by (simp only: e)
  have "\<bar>x\<bar> \<le> 2 powi (k + 1)" using assms(2) by simp
  moreover have "grid64 (2 powi (k + 1))" using assms(3) by (intro grid64_powi) simp
  ultimately have "\<bar>nearest64 x\<bar> \<le> 2 powi (k + 1)" by (rule nearest64_abs_le)
  moreover have "k + 1 < 1024" using assms(4) by simp
  then have "(2::real) powi (k + 1) < 2 powi 1024" by (simp only: p2_less_iff)
  moreover have "(2::real) powi 1024 = 2 ^ 1024" by (rule power_int_numeral)
  ultimately have "\<bar>nearest64 x\<bar> < 2 ^ 1024" by linarith
  from rnd_Fin [OF this] v show ?thesis by (simp only:)
qed

lemma nearest64_upper:
  assumes "2 powi (- 1022) \<le> x"
  shows "nearest64 x \<le> x * (1 + 1 / 2 ^ 53)"
proof -
  define u :: real where "u = 1 / 2 ^ 53"
  have "(0::real) < 2 powi (- 1022)" by (rule zero_less_power_int) simp
  with assms have x0: "0 < x" by linarith
  with assms have "2 powi (- 1022) \<le> \<bar>x\<bar>" by simp
  from nearest64_relative [OF this] have "\<bar>nearest64 x - x\<bar> \<le> \<bar>x\<bar> * u"
    by (simp only: u_def times_divide_eq_right mult_1_right)
  with x0 have "nearest64 x \<le> x + x * u" by linarith
  then show ?thesis by (simp only: u_def [symmetric] distrib_left mult_1_right)
qed

subsection \<open>The rate limiter\<close>

lemma isAllowed_fields:
  "maxRequests (snd (isAllowed rl now)) = maxRequests rl"
  "windowMs (snd (isAllowed rl now)) = windowMs rl"
  by (simp_all add: isAllowed_def Let_def)

lemma isAllowed_bounded:
  assumes "length (requests rl) \<le> maxRequests rl"
  shows "length (requests (snd (isAllowed rl now))) \<le> maxRequests rl"
proof -
  let ?kept = "filter (\<lambda>time. now - time < windowMs rl) (requests rl)"
  have kept: "length ?kept \<le> maxRequests rl"
    by (rule order_trans [OF length_filter_le assms])
  show ?thesis
  proof (cases "maxRequests rl \<le> length ?kept")
    case True
    with kept show ?thesis by (simp add: isAllowed_def Let_def)
  next
    case False
    then show ?thesis by (simp add: isAllowed_def Let_def)
  qed
qed

lemma admissions_bounded:
  "length (requests rl) \<le> maxRequests rl \<Longrightarrow>
   length (requests (admissions rl nows)) \<le> maxRequests rl"
proof (induction nows arbitrary: rl)
  case Nil
  then show ?case by simp
next
  case (Cons now nows)
  have "length (requests (snd (isAllowed rl now))) \<le> maxRequests (snd (isAllowed rl now))"
    using isAllowed_bounded [OF Cons.prems] by (simp add: isAllowed_fields)
  from Cons.IH [OF this] show ?case
    by (simp add: isAllowed_fields)
qed

text \<open>
  C6: \<^verbatim>\<open>isAllowed\<close> first drops every ledger timestamp that is at least \<open>windowMs\<close> old,
  then denies when the ledger still holds at least \<open>maxRequests\<close> entries, and otherwise
  appends the current instant and admits. Consequently, after any sequence of calls on a
  new limiter and for any instant \<open>t\<close>, the retained admissions \<open>a\<close> with \<open>t - a < windowMs\<close>
  number at most \<open>maxRequests\<close>.
\<close>

theorem isAllowed_sliding_window:
  "isAllowed rl now =
     (if maxRequests rl \<le> length [a \<leftarrow> requests rl. \<not> windowMs rl \<le> now - a]
      then (False, rl\<lparr>requests := [a \<leftarrow> requests rl. \<not> windowMs rl \<le> now - a]\<rparr>)
      else (True, rl\<lparr>requests := [a \<leftarrow> requests rl. \<not> windowMs rl \<le> now - a] @ [now]\<rparr>))
   \<and> length [a \<leftarrow> requests (admissions (RateLimiter m wd) nows). t - a < wd] \<le> m"
proof
  have eq: "(\<lambda>a. \<not> windowMs rl \<le> now - a) = (\<lambda>time. now - time < windowMs rl)"
    by (auto simp: fun_eq_iff)
  show "isAllowed rl now =
     (if maxRequests rl \<le> length [a \<leftarrow> requests rl. \<not> windowMs rl \<le> now - a]
      then (False, rl\<lparr>requests := [a \<leftarrow> requests rl. \<not> windowMs rl \<le> now - a]\<rparr>)
      else (True, rl\<lparr>requests := [a \<leftarrow> requests rl. \<not> windowMs rl \<le> now - a] @ [now]\<rparr>))"
    unfolding eq by (simp add: isAllowed_def Let_def)
next
  have "length (requests (admissions (RateLimiter m wd) nows)) \<le> maxRequests (RateLimiter m wd)"
    by (rule admissions_bounded) (simp add: RateLimiter_def)
  then have "length (requests (admissions (RateLimiter m wd) nows)) \<le> m"
    by (simp add: RateLimiter_def)
  moreover have "length [a \<leftarrow> requests (admissions (RateLimiter m wd) nows). t - a < wd]
      \<le> length (requests (admissions (RateLimiter m wd) nows))"
    by (rule length_filter_le)
  ultimately show "length [a \<leftarrow> requests (admissions (RateLimiter m wd) nows). t - a < wd] \<le> m"
    by (rule order_trans [rotated])
qed

theorem isAllowed_sliding_window_witness:
  "isAllowed (RateLimiter 2 1000) 5 = (True, \<lparr>maxRequests = 2, windowMs = 1000, requests = [5]\<rparr>)
   \<and> requests (admissions (RateLimiter 2 1000) [0, 10, 20, 1005, 1015]) = [1005, 1015]
   \<and> length [a \<leftarrow> requests (admissions (RateLimiter 2 1000) [0, 10, 20, 1005, 1015]). 1015 - a < 1000] \<le> 2"
  using isAllowed_sliding_window [where rl = "RateLimiter 2 1000" and now = 5 and m = 2
      and wd = 1000 and nows = "[0, 10, 20, 1005, 1015]" and t = 1015]
  by (simp add: RateLimiter_def isAllowed_def)

subsection \<open>The backoff delay\<close>

lemma EmailService_baseDelay_pos:
  "(case opt_baseDelay opts of None \<Rightarrow> True | Some d \<Rightarrow> \<exists>b. d = Fin b \<and> 0 \<le> b) \<Longrightarrow>
   \<exists>b. baseDelay (EmailService opts now) = Fin b \<and> 0 < b"
  by (auto simp: EmailService_def number_or_def Let_def split: option.splits)

text \<open>
  The largest delay before clamping, reached as \<^verbatim>\<open>Math.random()\<close> approaches \<open>1\<close>, is
  the delay plus the rounded tenth of it, rounded; it exceeds \<open>1.1\<close> times the delay by
  at most the relative rounding error \<open>2^-52\<close>.
\<close>

lemma backoff_cap:
  assumes "2 powi (- 1018) \<le> x"
  shows "nearest64 (x + nearest64 (nearest64 (1 / 10) * x)) \<le> 11 / 10 * x * (1 + 1 / 2 ^ 52)"
proof -
  define c :: real where "c = 3602879701896397 / 2 ^ 55"
  define u :: real where "u = 1 / 2 ^ 53"
  define jm where "jm = nearest64 (c * x)"
  have "(0::real) < 2 powi (- 1018)" by (rule zero_less_power_int) simp
  with assms have x0: "0 < x" by linarith
  have c16: "1 / 16 \<le> c" by (simp add: c_def)
  have p: "(2::real) powi (- 1022) = 1 / 16 * 2 powi (- 1018)"
    using power_int_diff [of "2::real" "- 1018" 4] by simp
  have "1 / 16 * 2 powi (- 1018) \<le> c * x"
    using assms c16 by (intro mult_mono) simp_all
  then have n1: "2 powi (- 1022) \<le> c * x" by (simp only: p)
  have cx0: "0 < c * x" using x0 by (simp add: c_def)
  have u0: "0 \<le> u" by (simp add: u_def)
  have jmb: "jm \<le> c * x * (1 + u)"
    unfolding jm_def u_def by (rule nearest64_upper [OF n1])
  have jm0: "0 \<le> jm" unfolding jm_def using cx0 by (intro nearest64_nonneg) simp
  have "(2::real) powi (- 1022) \<le> 2 powi (- 1018)" by (simp only: p2_le_iff)
  with assms jm0 have n2: "2 powi (- 1022) \<le> x + jm" by linarith
  have "nearest64 (x + jm) \<le> (x + jm) * (1 + u)"
    unfolding u_def by (rule nearest64_upper [OF n2])
  also have "\<dots> \<le> (x + c * x * (1 + u)) * (1 + u)"
    using jmb u0 by (intro mult_right_mono) simp_all
  also have "\<dots> = x * ((1 + c * (1 + u)) * (1 + u))" by (simp add: algebra_simps)
  also have "\<dots> \<le> x * (11 / 10 * (1 + 1 / 2 ^ 52))"
  proof -
    have "(1 + c * (1 + u)) * (1 + u) \<le> 11 / 10 * (1 + 1 / 2 ^ 52)"
      by (simp add: c_def u_def)
    with x0 show ?thesis by (intro mult_left_mono) simp_all
  qed
  finally have "nearest64 (x + jm) \<le> x * (11 / 10 * (1 + 1 / 2 ^ 52))" .
  then show ?thesis by (simp only: jm_def c_def tenth mult_ac)
qed

text \<open>The delays of the concrete runs below, where \<^verbatim>\<open>Math.random()\<close> returns \<open>1 / 2\<close>.\<close>

lemma rnd_tenth: "rnd (1 / 10) = Fin (3602879701896397 / 2 ^ 55)"
  by (subst rnd_eval [where k = "- 4"]) (simp_all add: round_even_def)

lemma rnd_half_tenth: "rnd (1 / 2 * (3602879701896397 / 2 ^ 55)) = Fin (3602879701896397 / 2 ^ 56)"
  by (subst rnd_eval [where k = "- 5"]) (simp_all add: round_even_def)

lemma backoff_half:
  assumes "baseDelay svc = Fin 1000" and "maxDelay svc = Fin 30000"
  shows "calculateBackoffDelay svc 0 (1 / 2) = Fin 1050"
    and "calculateBackoffDelay svc (Suc 0) (1 / 2) = Fin 2100"
    and "calculateBackoffDelay svc 1 (1 / 2) = Fin 2100"
    and "calculateBackoffDelay svc 2 (1 / 2) = Fin 4200"
    and "calculateBackoffDelay svc (Suc (Suc 0)) (1 / 2) = Fin 4200"
proof -
  have p: "Math_pow2 0 = Fin 1" "Math_pow2 1 = Fin 2" "Math_pow2 2 = Fin 4"
    using Math_pow2_exact [of 0] Math_pow2_exact [of 1] Math_pow2_exact [of 2] by simp_all
  have d: "rnd 1000 = Fin 1000" "rnd 2000 = Fin 2000" "rnd 4000 = Fin 4000"
    "rnd 1050 = Fin 1050" "rnd 2100 = Fin 2100" "rnd 4200 = Fin 4200"
    using rnd_exact [OF is_double_int [of 1000]] rnd_exact [OF is_double_int [of 2000]]
      rnd_exact [OF is_double_int [of 4000]] rnd_exact [OF is_double_int [of 1050]]
      rnd_exact [OF is_double_int [of 2100]] rnd_exact [OF is_double_int [of 4200]]
    by simp_all
  have j: "rnd (3602879701896397 / 2 ^ 56 * 1000) = Fin 50"
    "rnd (3602879701896397 / 2 ^ 56 * 2000) = Fin 100"
    "rnd (3602879701896397 / 2 ^ 56 * 4000) = Fin 200"
    by (subst rnd_eval [where k = 5], simp_all add: round_even_def)
       (subst rnd_eval [where k = 6], simp_all add: round_even_def,
        subst rnd_eval [where k = 7], simp_all add: round_even_def)
  show "calculateBackoffDelay svc 0 (1 / 2) = Fin 1050"
    using p d j rnd_tenth rnd_half_tenth
    by (simp add: calculateBackoffDelay_def assms Let_def Math_min_def)
  show "calculateBackoffDelay svc 1 (1 / 2) = Fin 2100"
    using p d j rnd_tenth rnd_half_tenth
    by (simp add: calculateBackoffDelay_def assms Let_def Math_min_def)
  then show "calculateBackoffDelay svc (Suc 0) (1 / 2) = Fin 2100" by simp
  show "calculateBackoffDelay svc 2 (1 / 2) = Fin 4200"
    using p d j rnd_tenth rnd_half_tenth
    by (simp add: calculateBackoffDelay_def assms Let_def Math_min_def)
  then show "calculateBackoffDelay svc (Suc (Suc 0)) (1 / 2) = Fin 4200"
    by (simp add: numeral_2_eq_2)
qed

text \<open>
  C7 (as amended): for a positive \<open>baseDelay\<close> \<open>b\<close>, an attempt \<open>a\<close> for which
  \<open>b * 2^a\<close> does not overflow, and every value \<open>r\<close> of \<^verbatim>\<open>Math.random()\<close> in \<open>[0, 1)\<close>:
  the jitter \<open>j\<close> is a number from \<open>0\<close> to the rounded tenth of \<open>b * 2^a\<close>, the delay is
  \<open>min maxDelay (b * 2^a + j)\<close> with the sum rounded, it never exceeds \<open>maxDelay\<close>, and
  when it is not clamped it is at least \<open>b * 2^a\<close> and at most the delay plus the largest
  jitter, rounded, a bound that can be reached and that is at most
  \<open>1.1 * b * 2^a * (1 + 2^-52)\<close>.
\<close>

theorem calculateBackoffDelay_bounds:
  assumes b: "baseDelay svc = Fin b" "is_double b" "0 < b"
    and m: "maxDelay svc = Fin m" "is_double m"
    and r: "0 \<le> r" "r < 1"
    and a: "a \<le> 1023" "b * 2 ^ a < 2 ^ 1024"
  shows "\<exists>j d. f64_mul (f64_mul (Fin r) (rnd (1 / 10))) (Fin (b * 2 ^ a)) = Fin j
       \<and> 0 \<le> j \<and> j \<le> nearest64 (nearest64 (1 / 10) * (b * 2 ^ a))
       \<and> calculateBackoffDelay svc a r = Fin d
       \<and> d = min m (nearest64 (b * 2 ^ a + j))
       \<and> d \<le> m
       \<and> (if nearest64 (b * 2 ^ a + j) \<le> m
          then b * 2 ^ a \<le> d
             \<and> d \<le> nearest64 (b * 2 ^ a + nearest64 (nearest64 (1 / 10) * (b * 2 ^ a)))
             \<and> (2 powi (- 1018) \<le> b * 2 ^ a \<longrightarrow>
                   d \<le> 11 / 10 * (b * 2 ^ a) * (1 + 1 / 2 ^ 52))
          else d = m)"
proof -
  define x where "x = b * 2 ^ a"
  define c where "c = nearest64 (1 / 10)"
  define j1 where "j1 = nearest64 (r * c)"
  define j where "j = nearest64 (j1 * x)"
  define jm where "jm = nearest64 (c * x)"
  define s where "s = nearest64 (x + j)"
  have x0: "0 < x" using b(3) by (simp add: x_def)
  have xd: "is_double x"
    using b(2) a(2) x0 grid64_scale [of b a] by (simp add: is_double_def x_def)
  then have gx: "grid64 x" and xlt: "x < 2 ^ 1024" using x0 by (simp_all add: is_double_def)
  have c: "c = 3602879701896397 / 2 ^ 55" by (simp add: c_def tenth)
  have c0: "0 < c" and c1: "c \<le> 1" by (simp_all add: c)
  have gc: "grid64 c" unfolding c_def by (rule grid64_nearest64)
  have rc: "rnd (1 / 10) = Fin c"
    unfolding c_def [symmetric] using c by (intro rnd_Fin [of "1 / 10", unfolded c_def [symmetric]]) simp
  have j1: "0 \<le> j1" "j1 \<le> c"
  proof -
    show "0 \<le> j1" unfolding j1_def using r(1) c0 by (intro nearest64_nonneg) simp
    have "r * c \<le> c" using r c0 by simp
    from nearest64_mono [OF this] show "j1 \<le> c" by (simp add: j1_def nearest64_exact [OF gc])
  qed
  have rj1: "rnd (r * c) = Fin j1"
    unfolding j1_def [symmetric] using j1 c1
    by (intro rnd_Fin [of "r * c", unfolded j1_def [symmetric]]) simp
  have jm: "jm \<le> x"
  proof -
    have "c * x \<le> x" using c1 x0 by simp
    from nearest64_mono [OF this] show ?thesis by (simp add: jm_def nearest64_exact [OF gx])
  qed
  have j: "0 \<le> j" "j \<le> jm"
  proof -
    show "0 \<le> j" unfolding j_def using j1(1) x0 by (intro nearest64_nonneg) simp
    have "j1 * x \<le> c * x" using j1(2) x0 by simp
    from nearest64_mono [OF this] show "j \<le> jm" by (simp add: j_def jm_def)
  qed
  have rj: "rnd (j1 * x) = Fin j"
    unfolding j_def [symmetric] using j jm xlt
    by (intro rnd_Fin [of "j1 * x", unfolded j_def [symmetric]]) simp
  have jit: "f64_mul (f64_mul (Fin r) (rnd (1 / 10))) (Fin x) = Fin j"
    by (simp add: rc rj1 rj)
  have delay: "f64_mul (baseDelay svc) (Math_pow2 a) = Fin x"
    using rnd_exact [OF xd] by (simp add: b(1) Math_pow2_exact [OF a(1)] x_def)
  have sx: "x \<le> s"
  proof -
    have "x \<le> x + j" using j(1) by simp
    from nearest64_mono [OF this] show ?thesis by (simp add: s_def nearest64_exact [OF gx])
  qed
  have scap: "s \<le> nearest64 (x + jm)"
    unfolding s_def using j(2) by (intro nearest64_mono) simp
  have cap: "2 powi (- 1018) \<le> x \<Longrightarrow> s \<le> 11 / 10 * x * (1 + 1 / 2 ^ 52)"
    using scap backoff_cap [of x] unfolding jm_def c_def by linarith
  have mlt: "m < 2 ^ 1024" using m(2) unfolding is_double_def by linarith
  have cd: "calculateBackoffDelay svc a r = Fin (min m s)"
  proof (cases "2 ^ 1024 \<le> s")
    case True
    then have "rnd (x + j) = PInf" by (simp add: rnd_def s_def)
    with True mlt show ?thesis
      by (simp add: calculateBackoffDelay_def Let_def delay jit m(1) Math_min_def)
  next
    case False
    with sx x0 have "rnd (x + j) = Fin s" by (simp add: rnd_def s_def)
    then show ?thesis
      by (auto simp: calculateBackoffDelay_def Let_def delay jit m(1) Math_min_def min_def)
  qed
  show ?thesis
    using jit j cd sx scap cap
    unfolding x_def [symmetric] c_def [symmetric] jm_def [symmetric]
    by (intro exI [of _ j] exI [of _ "min m s"]) (auto simp: s_def [symmetric] min_def)
qed

theorem calculateBackoffDelay_bounds_witness:
  "baseDelay (EmailService defaultOptions 0) = Fin 1000 \<and> is_double 1000 \<and> (0::real) < 1000
   \<and> maxDelay (EmailService defaultOptions 0) = Fin 30000 \<and> is_double 30000
   \<and> (0::real) \<le> 1 / 2 \<and> (1::real) / 2 < 1 \<and> (2::nat) \<le> 1023 \<and> (1000::real) * 2 ^ 2 < 2 ^ 1024
   \<and> calculateBackoffDelay (EmailService defaultOptions 0) 2 (1 / 2) = Fin 4200
   \<and> f64_mul (f64_mul (Fin (1 / 2)) (rnd (1 / 10))) (Fin (1000 * 2 ^ 2)) = Fin 200
   \<and> (4200::real) \<le> 30000 \<and> (1000::real) * 2 ^ 2 \<le> 4200
   \<and> (4200::real) \<le> 11 / 10 * (1000 * 2 ^ 2) * (1 + 1 / 2 ^ 52)"
proof -
  have s: "baseDelay (EmailService defaultOptions 0) = Fin 1000"
    "maxDelay (EmailService defaultOptions 0) = Fin 30000"
    by (simp_all add: EmailService_def defaultOptions_def number_or_def)
  have d: "is_double 1000" "is_double 30000"
    using is_double_int [of 1000] is_double_int [of 30000] by simp_all
  have v: "calculateBackoffDelay (EmailService defaultOptions 0) 2 (1 / 2) = Fin 4200"
    by (rule backoff_half(4) [OF s])
  have "rnd (3602879701896397 / 2 ^ 56 * 4000) = Fin 200"
    by (subst rnd_eval [where k = 7]) (simp_all add: round_even_def)
  then have jv: "f64_mul (f64_mul (Fin (1 / 2)) (rnd (1 / 10))) (Fin (1000 * 2 ^ 2)) = Fin 200"
    using rnd_tenth rnd_half_tenth by simp
  from calculateBackoffDelay_bounds [OF s(1) d(1) _ s(2) d(2), of "1 / 2" 2]
  obtain j dd where *: "f64_mul (f64_mul (Fin (1 / 2)) (rnd (1 / 10))) (Fin (1000 * 2 ^ 2)) = Fin j"
    "calculateBackoffDelay (EmailService defaultOptions 0) 2 (1 / 2) = Fin dd"
    "dd = min 30000 (nearest64 (1000 * 2 ^ 2 + j))" "dd \<le> 30000"
    by auto
  from * v jv have "dd = 4200" "j = 200" by simp_all
  with * s d v jv show ?thesis by simp
qed

text \<open>
  The claim as stated fails in binary64. With \<open>baseDelay = 1000\<close>, attempt \<open>0\<close> and the
  largest value of \<^verbatim>\<open>Math.random()\<close>, \<open>1 - 2^-52\<close>, the jitter is \<open>100 - 2^-45\<close> and the
  sum is rounded to \<open>1100\<close>, which is not below \<open>1.1 * 1000\<close>. For the attempt \<open>1015\<close>
  the product \<open>1000 * 2^1015\<close> overflows to \<^verbatim>\<open>Infinity\<close>, and with the value \<open>0\<close> of
  \<^verbatim>\<open>Math.random()\<close> the jitter and the delay are \<^verbatim>\<open>NaN\<close>, which is not at most
  \<open>maxDelay\<close>.
\<close>

theorem backoff_delay_rounds_up_to_cap:
  "calculateBackoffDelay (EmailService defaultOptions 0) 0 (1 - 1 / 2 ^ 52) = Fin 1100
   \<and> \<not> (1100::real) < 11 / 10 * 1000 * 2 ^ 0
   \<and> calculateBackoffDelay (EmailService defaultOptions 0) 1015 0 = NaN
   \<and> \<not> f64_le (calculateBackoffDelay (EmailService defaultOptions 0) 1015 0)
          (maxDelay (EmailService defaultOptions 0))"
proof -
  have s: "baseDelay (EmailService defaultOptions 0) = Fin 1000"
    "maxDelay (EmailService defaultOptions 0) = Fin 30000"
    by (simp_all add: EmailService_def defaultOptions_def number_or_def)
  have 1: "rnd (1000 * 1) = Fin 1000"
    using rnd_exact [OF is_double_int [of 1000]] by simp
  have 3: "rnd ((1 - 1 / 2 ^ 52) * (3602879701896397 / 2 ^ 55)) = Fin (7205759403792792 / 2 ^ 56)"
    by (subst rnd_eval [where k = "- 4"]) (simp_all add: round_even_def)
  have 4: "rnd (7205759403792792 / 2 ^ 56 * 1000) = Fin (100 - 1 / 2 ^ 45)"
    by (subst rnd_eval [where k = 6]) (simp_all add: round_even_def)
  have 5: "rnd (1000 + (100 - 1 / 2 ^ 45)) = Fin 1100"
    by (subst rnd_eval [where k = 10]) (simp_all add: round_even_def)
  have p0: "Math_pow2 0 = Fin 1" using Math_pow2_exact [of 0] by simp
  have a: "calculateBackoffDelay (EmailService defaultOptions 0) 0 (1 - 1 / 2 ^ 52) = Fin 1100"
    using 1 rnd_tenth 3 4 5 by (simp add: calculateBackoffDelay_def s Let_def p0 Math_min_def)
  have p: "Math_pow2 1015 = Fin (2 ^ 1015)" using Math_pow2_exact [of 1015] by simp
  have "grid64 (1000 * 2 ^ 1015)"
    using grid64_scale [OF grid64_int [of 1000], of 1015] by simp
  then have "nearest64 (1000 * 2 ^ 1015) = 1000 * 2 ^ 1015" by (rule nearest64_exact)
  then have 6: "rnd (1000 * 2 ^ 1015) = PInf" by (simp add: rnd_def)
  have 7: "rnd 0 = Fin 0" by (simp add: rnd_def)
  have b: "calculateBackoffDelay (EmailService defaultOptions 0) 1015 0 = NaN"
    using 6 rnd_tenth 7 by (simp add: calculateBackoffDelay_def s Let_def p Math_min_def)
  show ?thesis using a b by simp
qed

subsection \<open>The circuit breaker\<close>

lemma call_refused:
  "state cb = OPEN \<Longrightarrow> clock w < nextAttempt cb \<Longrightarrow> call cb fn w = (Inl breakerOpenMessage, cb, w)"
  by (simp add: call_def)

lemma call_closed:
  "state cb = CLOSED \<Longrightarrow>
   call cb fn w = (case fn w of (Inr res, w') \<Rightarrow> (Inr res, onSuccess cb, w')
                              | (Inl err, w') \<Rightarrow> (Inl err, onFailure cb (clock w'), w'))"
  by (simp add: call_def)

lemma call_probe:
  "state cb = OPEN \<Longrightarrow> nextAttempt cb \<le> clock w \<Longrightarrow>
   call cb fn w = (case fn w of (Inr res, w') \<Rightarrow> (Inr res, onSuccess (cb\<lparr>state := HALF_OPEN\<rparr>), w')
                              | (Inl err, w') \<Rightarrow> (Inl err, onFailure (cb\<lparr>state := HALF_OPEN\<rparr>) (clock w'), w'))"
  by (simp add: call_def Let_def)

text \<open>A call with no other call in between is its two sections, one after the other.\<close>

lemma call_sections:
  "call cb fn w =
     (case call_enter cb (clock w) of
        (False, cb') \<Rightarrow> (Inl breakerOpenMessage, cb', w)
      | (True, cb1) \<Rightarrow>
          (case fn w of (r, w') \<Rightarrow> (r, call_settle cb1 (\<not> isl r) (clock w'), w')))"
  by (cases "fn w"; cases "fst (fn w)")
     (auto simp: call_def call_enter_def call_settle_def Let_def)

lemma breaker_state_open:
  "breaker_state cb \<Longrightarrow> state cb = OPEN \<Longrightarrow> threshold cb \<le> failureCount cb"
  by (induction rule: breaker_state.induct)
     (auto simp: CircuitBreaker_def call_enter_def call_settle_def onSuccess_def onFailure_def
           Let_def split: if_splits)

lemma failures_open:
  assumes "state cb = CLOSED"
    and "failureCount cb + length fns = threshold cb"
    and "fns \<noteq> []"
    and "\<forall>f\<in>set fns. \<forall>v. isl (fst (f v))"
    and "calls_in_turn cb fns w = (rs, cb', w')"
  shows "w' = foldl (\<lambda>v f. snd (f v)) w fns \<and> state cb' = OPEN
     \<and> nextAttempt cb' = clock w' + timeout cb \<and> failureCount cb' = threshold cb"
  using assms
proof (induction fns arbitrary: cb w rs)
  case Nil
  then show ?case by simp
next
  case (Cons f fns)
  from Cons.prems(4) have "isl (fst (f w))" by simp
  then obtain e w1 where f: "f w = (Inl e, w1)"
    by (cases "f w"; cases "fst (f w)") auto
  let ?cb1 = "onFailure cb (clock w1)"
  have c: "call cb f w = (Inl e, ?cb1, w1)"
    using Cons.prems(1) f by (simp add: call_closed)
  show ?case
  proof (cases "fns = []")
    case True
    with Cons.prems c f show ?thesis
      by (auto simp: onFailure_def Let_def)
  next
    case False
    obtain rs2 where r2: "calls_in_turn ?cb1 fns w1 = (rs2, cb', w')"
      using Cons.prems(5) c by (auto split: prod.splits)
    have lt: "failureCount cb + 1 < threshold cb"
      using Cons.prems(2) False by (cases fns) auto
    have s1: "state ?cb1 = CLOSED" "failureCount ?cb1 + length fns = threshold ?cb1"
      "timeout ?cb1 = timeout cb" "threshold ?cb1 = threshold cb"
      using Cons.prems(1,2) lt by (auto simp: onFailure_def Let_def)
    from Cons.IH [OF s1(1) s1(2) False _ r2] Cons.prems(4)
    show ?thesis using f s1 by simp
  qed
qed

lemma openBreaker_state:
  "breaker_state openBreaker" "breaker_state (openBreaker\<lparr>state := HALF_OPEN\<rparr>)"
proof -
  have "breaker_state (call_settle (call_settle (CircuitBreaker 2 100 0) False 10) False 50)"
    by (intro breaker_state.intros)
  then show o: "breaker_state openBreaker"
    by (simp add: call_settle_def onFailure_def CircuitBreaker_def openBreaker_def Let_def
        numeral_2_eq_2)
  from breaker_state.entered [OF o, of 150]
  show "breaker_state (openBreaker\<lparr>state := HALF_OPEN\<rparr>)"
    by (simp add: call_enter_def openBreaker_def)
qed

text \<open>
  C4 (as amended): for a breaker in any state it can be in, also while calls are in flight.
  (1) While it is \<open>OPEN\<close> and the clock is before \<open>nextAttempt\<close>, \<^verbatim>\<open>call\<close> refuses with
  the breaker-open error and the wrapped operation does not run (the world is unchanged,
  whatever the operation). (2) From \<open>CLOSED\<close> with a counter of \<open>0\<close>, after \<open>threshold\<close>
  consecutive failing operations, each of which has run, the breaker is \<open>OPEN\<close> with
  \<open>nextAttempt\<close> set to the instant of the last failure plus \<open>timeout\<close>, and every call
  before that instant is refused. (3) Once \<open>nextAttempt\<close> is reached, a call that arrives
  while the breaker is \<open>OPEN\<close> is admitted and marks it \<open>HALF_OPEN\<close>; when no other call
  overlaps with it, the breaker is afterwards \<open>CLOSED\<close> with the counter reset when the
  operation succeeded, and \<open>OPEN\<close> again with \<open>nextAttempt\<close> set to the instant of the
  failure plus \<open>timeout\<close> when it failed. (4) The probe is not exclusive: a call that
  arrives while the breaker is \<open>HALF_OPEN\<close> is admitted as well, leaves the state as it is
  and runs its operation.
\<close>

theorem circuit_breaker_contract:
  assumes "breaker_state cb"
  shows "(state cb = OPEN \<and> clock w < nextAttempt cb \<longrightarrow>
            call cb fn w = (Inl breakerOpenMessage, cb, w))
     \<and> (state cb = CLOSED \<and> failureCount cb = 0 \<and> 0 < threshold cb
          \<and> length fns = threshold cb \<and> (\<forall>f\<in>set fns. \<forall>v. isl (fst (f v))) \<longrightarrow>
          (case calls_in_turn cb fns w of
             (rs, cb', w') \<Rightarrow>
               w' = foldl (\<lambda>v f. snd (f v)) w fns \<and> state cb' = OPEN
               \<and> nextAttempt cb' = clock w' + timeout cb
               \<and> (\<forall>g v. clock v < nextAttempt cb' \<longrightarrow>
                     call cb' g v = (Inl breakerOpenMessage, cb', v))))
     \<and> (state cb = OPEN \<and> nextAttempt cb \<le> clock w \<longrightarrow>
          call_enter cb (clock w) = (True, cb\<lparr>state := HALF_OPEN\<rparr>)
          \<and> (case fn w of
               (Inr res, w') \<Rightarrow>
                 call cb fn w = (Inr res, cb\<lparr>failureCount := 0, state := CLOSED\<rparr>, w')
             | (Inl err, w') \<Rightarrow>
                 call cb fn w =
                   (Inl err,
                    cb\<lparr>failureCount := failureCount cb + 1, state := OPEN,
                       nextAttempt := clock w' + timeout cb\<rparr>, w')))
     \<and> (state cb = HALF_OPEN \<longrightarrow>
          call_enter cb (clock w) = (True, cb)
          \<and> (case fn w of
               (Inr res, w') \<Rightarrow> call cb fn w = (Inr res, onSuccess cb, w')
             | (Inl err, w') \<Rightarrow> call cb fn w = (Inl err, onFailure cb (clock w'), w')))"
proof (intro conjI impI)
  assume "state cb = OPEN \<and> clock w < nextAttempt cb"
  then show "call cb fn w = (Inl breakerOpenMessage, cb, w)"
    by (simp add: call_refused)
next
  assume a: "state cb = CLOSED \<and> failureCount cb = 0 \<and> 0 < threshold cb
          \<and> length fns = threshold cb \<and> (\<forall>f\<in>set fns. \<forall>v. isl (fst (f v)))"
  obtain rs cb' w' where r: "calls_in_turn cb fns w = (rs, cb', w')"
    by (cases "calls_in_turn cb fns w") auto
  have ne: "fns \<noteq> []" using a by auto
  have "w' = foldl (\<lambda>v f. snd (f v)) w fns \<and> state cb' = OPEN
     \<and> nextAttempt cb' = clock w' + timeout cb \<and> failureCount cb' = threshold cb"
    by (rule failures_open [OF _ _ ne _ r]) (use a in auto)
  then show "case calls_in_turn cb fns w of
             (rs, cb', w') \<Rightarrow>
               w' = foldl (\<lambda>v f. snd (f v)) w fns \<and> state cb' = OPEN
               \<and> nextAttempt cb' = clock w' + timeout cb
               \<and> (\<forall>g v. clock v < nextAttempt cb' \<longrightarrow>
                     call cb' g v = (Inl breakerOpenMessage, cb', v))"
    by (simp add: r call_refused)
next
  assume a: "state cb = OPEN \<and> nextAttempt cb \<le> clock w"
  then show "call_enter cb (clock w) = (True, cb\<lparr>state := HALF_OPEN\<rparr>)"
    by (simp add: call_enter_def)
  from a breaker_state_open [OF assms] have th: "threshold cb \<le> failureCount cb"
    by simp
  show "case fn w of
             (Inr res, w') \<Rightarrow>
               call cb fn w = (Inr res, cb\<lparr>failureCount := 0, state := CLOSED\<rparr>, w')
           | (Inl err, w') \<Rightarrow>
               call cb fn w =
                 (Inl err,
                  cb\<lparr>failureCount := failureCount cb + 1, state := OPEN,
                     nextAttempt := clock w' + timeout cb\<rparr>, w')"
    using a th
    by (cases "fn w"; cases "fst (fn w)")
       (auto simp: call_probe onSuccess_def onFailure_def Let_def)
next
  assume a: "state cb = HALF_OPEN"
  then show "call_enter cb (clock w) = (True, cb)"
    by (simp add: call_enter_def)
  show "case fn w of
          (Inr res, w') \<Rightarrow> call cb fn w = (Inr res, onSuccess cb, w')
        | (Inl err, w') \<Rightarrow> call cb fn w = (Inl err, onFailure cb (clock w'), w')"
    using a by (cases "fn w"; cases "fst (fn w)") (auto simp: call_def)
qed

theorem circuit_breaker_contract_witness:
  "breaker_state openBreaker \<and> state openBreaker = OPEN
   \<and> clock (world0\<lparr>clock := 120\<rparr>) < nextAttempt openBreaker
   \<and> call openBreaker workingOp (world0\<lparr>clock := 120\<rparr>)
       = (Inl breakerOpenMessage, openBreaker, world0\<lparr>clock := 120\<rparr>)
   \<and> breaker_state (CircuitBreaker 2 100 0)
   \<and> calls_in_turn (CircuitBreaker 2 100 0) [failingOp, failingOp] world0
       = ([Inl ''boom'', Inl ''boom''],
          \<lparr>threshold = 2, timeout = 100, failureCount = 2, state = OPEN, nextAttempt = 120\<rparr>,
          world0\<lparr>clock := 20\<rparr>)
   \<and> nextAttempt openBreaker \<le> clock (world0\<lparr>clock := 150\<rparr>)
   \<and> call openBreaker workingOp (world0\<lparr>clock := 150\<rparr>)
       = (Inr \<lparr>delivery_id = ''d1'', delivery_timestamp = 160\<rparr>,
          openBreaker\<lparr>failureCount := 0, state := CLOSED\<rparr>, world0\<lparr>clock := 160\<rparr>)
   \<and> call openBreaker failingOp (world0\<lparr>clock := 150\<rparr>)
       = (Inl ''boom'',
          openBreaker\<lparr>failureCount := 3, state := OPEN, nextAttempt := 260\<rparr>,
          world0\<lparr>clock := 160\<rparr>)
   \<and> breaker_state (openBreaker\<lparr>state := HALF_OPEN\<rparr>)
   \<and> state (openBreaker\<lparr>state := HALF_OPEN\<rparr>) = HALF_OPEN
   \<and> call_enter (openBreaker\<lparr>state := HALF_OPEN\<rparr>) 155
       = (True, openBreaker\<lparr>state := HALF_OPEN\<rparr>)
   \<and> call (openBreaker\<lparr>state := HALF_OPEN\<rparr>) workingOp (world0\<lparr>clock := 155\<rparr>)
       = (Inr \<lparr>delivery_id = ''d1'', delivery_timestamp = 165\<rparr>,
          openBreaker\<lparr>failureCount := 0, state := CLOSED\<rparr>, world0\<lparr>clock := 165\<rparr>)"
  using circuit_breaker_contract [OF openBreaker_state(1), where w = "world0\<lparr>clock := 120\<rparr>"
      and fn = workingOp and fns = "[]"]
    circuit_breaker_contract [OF breaker_state.created [of 2 100 0], where w = world0
      and fn = workingOp and fns = "[failingOp, failingOp]"]
    circuit_breaker_contract [OF openBreaker_state(1), where w = "world0\<lparr>clock := 150\<rparr>"
      and fn = workingOp and fns = "[]"]
    circuit_breaker_contract [OF openBreaker_state(1), where w = "world0\<lparr>clock := 150\<rparr>"
      and fn = failingOp and fns = "[]"]
    circuit_breaker_contract [OF openBreaker_state(2), where w = "world0\<lparr>clock := 155\<rparr>"
      and fn = workingOp and fns = "[]"]
    openBreaker_state breaker_state.created [of 2 100 0]
  by (simp add: openBreaker_def world0_def CircuitBreaker_def failingOp_def
      workingOp_def isl_def call_def call_enter_def onSuccess_def onFailure_def Let_def)

text \<open>
  The claim as stated fails where it says that exactly one probe is permitted. The breaker is
  \<open>OPEN\<close> until the instant \<open>150\<close>. A first call arrives at \<open>150\<close>: it is admitted and the
  breaker is \<open>HALF_OPEN\<close>. A second call arrives at \<open>155\<close>, while the operation of the first
  one has not settled: it is admitted too. The first operation fails at \<open>160\<close> and the
  breaker is \<open>OPEN\<close> again, until \<open>260\<close>; the second one succeeds at \<open>165\<close> and the
  breaker is \<open>CLOSED\<close>, before that cooldown has elapsed.
\<close>

theorem probe_is_not_exclusive:
  "call_enter openBreaker 150 = (True, openBreaker\<lparr>state := HALF_OPEN\<rparr>)
   \<and> call_enter (openBreaker\<lparr>state := HALF_OPEN\<rparr>) 155
       = (True, openBreaker\<lparr>state := HALF_OPEN\<rparr>)
   \<and> call_settle (openBreaker\<lparr>state := HALF_OPEN\<rparr>) False 160
       = openBreaker\<lparr>failureCount := 3, state := OPEN, nextAttempt := 260\<rparr>
   \<and> call_settle (openBreaker\<lparr>failureCount := 3, state := OPEN, nextAttempt := 260\<rparr>) True 165
       = openBreaker\<lparr>failureCount := 0, state := CLOSED, nextAttempt := 260\<rparr>"
  by (simp add: openBreaker_def call_enter_def call_settle_def onSuccess_def onFailure_def)

subsection \<open>The retry loop, one iteration at a time\<close>

lemma retryLoop_done:
  "\<not> attempt \<le> maxRetries svc \<Longrightarrow> retryLoop env email key p attempt le svc w = (None, le, svc, w)"
  by (simp add: retryLoop.simps)

lemma retryLoop_success:
  "attempt \<le> maxRetries svc \<Longrightarrow>
   breakerCall env (attemptStatus key p attempt svc w) p email w = (Inr d, svc2, w2) \<Longrightarrow>
   retryLoop env email key p attempt le svc w
     = (Some (successResult d p attempt), le,
        recordSuccess key email (successResult d p attempt) svc2 w2)"
  by (subst retryLoop.simps) (simp split: prod.splits)

lemma retryLoop_break:
  "attempt \<le> maxRetries svc \<Longrightarrow>
   breakerCall env (attemptStatus key p attempt svc w) p email w = (Inl msg, svc2, w2) \<Longrightarrow>
   str_includes msg breakerOpenMessage \<Longrightarrow>
   retryLoop env email key p attempt le svc w = (None, Some msg, svc2, w2)"
  by (subst retryLoop.simps) simp

lemma retryLoop_last:
  "attempt = maxRetries svc \<Longrightarrow>
   breakerCall env (attemptStatus key p attempt svc w) p email w = (Inl msg, svc2, w2) \<Longrightarrow>
   \<not> str_includes msg breakerOpenMessage \<Longrightarrow>
   retryLoop env email key p attempt le svc w = (None, Some msg, svc2, w2)"
  by (subst retryLoop.simps) simp

lemma retryLoop_retry:
  "attempt < maxRetries svc \<Longrightarrow>
   breakerCall env (attemptStatus key p attempt svc w) p email w = (Inl msg, svc2, w2) \<Longrightarrow>
   \<not> str_includes msg breakerOpenMessage \<Longrightarrow>
   retryLoop env email key p attempt le svc w
     = retryLoop env email key p (attempt + 1) (Some msg) svc2 (backoff env svc2 attempt w2)"
  by (subst retryLoop.simps) simp

lemma breakerCall_service:
  "breakerCall env svc p email w = (r, svc', w') \<Longrightarrow>
   svc' = svc\<lparr>circuitBreakers := circuitBreakers svc'\<rparr>"
  by (auto simp: breakerCall_def split: option.splits prod.splits)

lemma breakerCall_maxRetries:
  "breakerCall env (attemptStatus key p attempt svc w) p email w = (r, svc', w') \<Longrightarrow>
   maxRetries svc' = maxRetries svc"
  by (auto simp: breakerCall_def attemptStatus_def split: option.splits prod.splits)

text \<open>Induction over the iterations of the loop, by what each iteration does.\<close>

lemma retryLoop_cases [consumes 1, case_names stop success brk final retry]:
  assumes run: "retryLoop env email key p attempt le svc w = out"
    and stop: "\<And>attempt le svc w. \<not> attempt \<le> maxRetries svc \<Longrightarrow> P attempt le svc w (None, le, svc, w)"
    and success: "\<And>attempt le svc w d svc2 w2.
        attempt \<le> maxRetries svc \<Longrightarrow>
        breakerCall env (attemptStatus key p attempt svc w) p email w = (Inr d, svc2, w2) \<Longrightarrow>
        P attempt le svc w (Some (successResult d p attempt), le,
          recordSuccess key email (successResult d p attempt) svc2 w2)"
    and brk: "\<And>attempt le svc w msg svc2 w2.
        attempt \<le> maxRetries svc \<Longrightarrow>
        breakerCall env (attemptStatus key p attempt svc w) p email w = (Inl msg, svc2, w2) \<Longrightarrow>
        str_includes msg breakerOpenMessage \<Longrightarrow>
        P attempt le svc w (None, Some msg, svc2, w2)"
    and final: "\<And>attempt le svc w msg svc2 w2.
        attempt = maxRetries svc \<Longrightarrow>
        breakerCall env (attemptStatus key p attempt svc w) p email w = (Inl msg, svc2, w2) \<Longrightarrow>
        \<not> str_includes msg breakerOpenMessage \<Longrightarrow>
        P attempt le svc w (None, Some msg, svc2, w2)"
    and retry: "\<And>attempt le svc w msg svc2 w2 out.
        attempt < maxRetries svc \<Longrightarrow>
        breakerCall env (attemptStatus key p attempt svc w) p email w = (Inl msg, svc2, w2) \<Longrightarrow>
        \<not> str_includes msg breakerOpenMessage \<Longrightarrow>
        retryLoop env email key p (attempt + 1) (Some msg) svc2 (backoff env svc2 attempt w2) = out \<Longrightarrow>
        P (attempt + 1) (Some msg) svc2 (backoff env svc2 attempt w2) out \<Longrightarrow>
        P attempt le svc w out"
  shows "P attempt le svc w out"
  using run
proof (induction "maxRetries svc + 1 - attempt" arbitrary: attempt le svc w)
  case 0
  then have n: "\<not> attempt \<le> maxRetries svc" by simp
  from "0.prems" have "out = (None, le, svc, w)" by (simp add: retryLoop_done [OF n])
  with stop [OF n] show ?case by simp
next
  case (Suc n)
  then have le: "attempt \<le> maxRetries svc" by simp
  obtain r svc2 w2 where bc: "breakerCall env (attemptStatus key p attempt svc w) p email w = (r, svc2, w2)"
    by (cases "breakerCall env (attemptStatus key p attempt svc w) p email w") auto
  show ?case
  proof (cases r)
    case (Inr d)
    from Suc.prems have "out = (Some (successResult d p attempt), le,
          recordSuccess key email (successResult d p attempt) svc2 w2)"
      by (simp add: retryLoop_success [OF le bc [unfolded Inr]])
    with success [OF le bc [unfolded Inr]] show ?thesis by simp
  next
    case (Inl msg)
    note bc' = bc [unfolded Inl]
    show ?thesis
    proof (cases "str_includes msg breakerOpenMessage")
      case True
      with Suc.prems brk [OF le bc' True] show ?thesis
        by (simp add: retryLoop_break [OF le bc' True])
    next
      case False
      show ?thesis
      proof (cases "attempt < maxRetries svc")
        case lt: True
        have m: "maxRetries svc2 = maxRetries svc" by (rule breakerCall_maxRetries [OF bc'])
        have n: "n = maxRetries svc2 + 1 - (attempt + 1)" using Suc.hyps(2) m by simp
        have eq: "retryLoop env email key p (attempt + 1) (Some msg) svc2 (backoff env svc2 attempt w2) = out"
          using Suc.prems by (simp add: retryLoop_retry [OF lt bc' False])
        from retry [OF lt bc' False eq Suc.hyps(1) [OF n eq]] show ?thesis .
      next
        case False2: False
        with le have e: "attempt = maxRetries svc" by simp
        from Suc.prems have "out = (None, Some msg, svc2, w2)"
          by (simp add: retryLoop_last [OF e bc' False])
        with final [OF e bc' False] show ?thesis by simp
      qed
    qed
  qed
qed


subsection \<open>What an attempt changes\<close>

lemma same_settings_refl [simp]: "same_settings svc svc"
  by (simp add: same_settings_def)

lemma same_settings_trans:
  "same_settings a b \<Longrightarrow> same_settings b c \<Longrightarrow> same_settings a c"
  by (simp add: same_settings_def)

lemma breakerCall_world:
  assumes "breakerCall env svc p email w = (r, svc', w')"
  shows "sleeps w' = sleeps w" and "emitted w' = emitted w"
    and "calls w' = calls w \<or> calls w' = calls w @ [(name p, email)]"
  using assms
  by (auto simp: breakerCall_def call_def provider_sendEmail_def Let_def
           split: option.splits prod.splits sum.splits if_splits)

lemma breakerCall_Inr:
  assumes "breakerCall env svc p email w = (Inr d, svc', w')"
  shows "calls w' = calls w @ [(name p, email)]"
    and "outcome (respond env (name p) email (length (calls w))) = Inr d"
  using assms
  by (auto simp: breakerCall_def call_def provider_sendEmail_def Let_def
           split: option.splits prod.splits sum.splits if_splits)

lemma breakerCall_settings:
  "breakerCall env svc p email w = (r, svc', w') \<Longrightarrow> same_settings svc svc'"
  by (auto simp: breakerCall_def same_settings_def split: option.splits prod.splits)

lemma attemptStatus_settings [simp]: "same_settings svc (attemptStatus key p attempt svc w)"
  by (simp add: same_settings_def attemptStatus_def)

lemma recordSuccess_settings [simp]: "same_settings svc (fst (recordSuccess key email res svc w))"
  by (simp add: same_settings_def recordSuccess_def)

lemma recordSuccess_calls [simp]: "calls (snd (recordSuccess key email res svc w)) = calls w"
  by (simp add: recordSuccess_def)

lemma backoff_calls [simp]: "calls (backoff env svc attempt w) = calls w"
  by (simp add: backoff_def sleep_def)

lemma backoff_emitted [simp]: "emitted (backoff env svc attempt w) = emitted w"
  by (simp add: backoff_def sleep_def)

lemma retryLoop_settings:
  assumes "retryLoop env email key p attempt le svc w = out"
  shows "same_settings svc (fst (snd (snd out)))"
  using assms
proof (induction rule: retryLoop_cases)
  case (retry attempt le svc w msg svc2 w2 out)
  from breakerCall_settings [OF retry(2)] have "same_settings svc svc2"
    by (rule same_settings_trans [OF attemptStatus_settings])
  then show ?case using retry(5) by (rule same_settings_trans)
qed (auto dest!: breakerCall_settings intro: same_settings_trans [OF attemptStatus_settings]
       same_settings_trans recordSuccess_settings)

text \<open>The invocations made by the loop: all on its provider, at most one per iteration.\<close>

lemma retryLoop_calls:
  assumes "retryLoop env email key p attempt le svc w = out"
  shows "\<exists>new. calls (snd (snd (snd out))) = calls w @ new
           \<and> length new \<le> maxRetries svc + 1 - attempt \<and> set new \<subseteq> {(name p, email)}"
  using assms
proof (induction rule: retryLoop_cases)
  case (stop attempt le svc w)
  then show ?case by simp
next
  case (success attempt le svc w d svc2 w2)
  from breakerCall_Inr(1) [OF success(2)] success(1) show ?case
    by (cases "recordSuccess key email (successResult d p attempt) svc2 w2")
       (auto simp: recordSuccess_def)
next
  case (brk attempt le svc w msg svc2 w2)
  from breakerCall_world(3) [OF brk(2)] brk(1) show ?case by auto
next
  case (final attempt le svc w msg svc2 w2)
  from breakerCall_world(3) [OF final(2)] final(1) show ?case by auto
next
  case (retry attempt le svc w msg svc2 w2 out)
  have m: "maxRetries svc2 = maxRetries svc" by (rule breakerCall_maxRetries [OF retry(2)])
  from retry(5) obtain new where n: "calls (snd (snd (snd out))) = calls w2 @ new"
    "length new \<le> maxRetries svc2 + 1 - (attempt + 1)" "set new \<subseteq> {(name p, email)}"
    by auto
  from breakerCall_world(3) [OF retry(2)] show ?case
  proof
    assume "calls w2 = calls w"
    with n m show ?thesis by auto
  next
    assume "calls w2 = calls w @ [(name p, email)]"
    with n m retry(1) show ?thesis
      by (intro exI [of _ "(name p, email) # new"]) auto
  qed
qed

lemma providersLoop_settings:
  "providersLoop env email key ps le svc w = out \<Longrightarrow> same_settings svc (fst (snd (snd out)))"
proof (induction ps arbitrary: le svc w)
  case Nil
  then show ?case by auto
next
  case (Cons p ps)
  obtain r le1 svc1 w1 where rl: "retryLoop env email key p 0 le svc w = (r, le1, svc1, w1)"
    by (cases "retryLoop env email key p 0 le svc w") auto
  from retryLoop_settings [OF rl] have s1: "same_settings svc svc1" by simp
  show ?case
  proof (cases r)
    case None
    with Cons.prems rl have "providersLoop env email key ps le1 svc1 w1 = out" by simp
    from Cons.IH [OF this] s1 show ?thesis by (rule same_settings_trans [rotated])
  next
    case (Some res)
    with Cons.prems rl s1 show ?thesis by auto
  qed
qed

text \<open>
  The invocations made by the loop over the providers \<open>ps\<close>: at most \<open>maxRetries + 1\<close> for
  each provider of the list, under the name of that provider.
\<close>

lemma providersLoop_calls:
  "providersLoop env email key ps le svc w = out \<Longrightarrow>
   \<exists>new. calls (snd (snd (snd out))) = calls w @ new
     \<and> length new \<le> length ps * (maxRetries svc + 1)
     \<and> (\<forall>n. length (filter (\<lambda>c. fst c = n) new)
            \<le> count_list (map name ps) n * (maxRetries svc + 1))"
proof (induction ps arbitrary: le svc w)
  case Nil
  then show ?case by auto
next
  case (Cons p ps)
  obtain r le1 svc1 w1 where rl: "retryLoop env email key p 0 le svc w = (r, le1, svc1, w1)"
    by (cases "retryLoop env email key p 0 le svc w") auto
  from retryLoop_calls [OF rl] obtain new1 where n1: "calls w1 = calls w @ new1"
    "length new1 \<le> maxRetries svc + 1" "set new1 \<subseteq> {(name p, email)}"
    by auto
  from retryLoop_settings [OF rl] have m: "maxRetries svc1 = maxRetries svc"
    by (simp add: same_settings_def)
  have f1: "length (filter (\<lambda>c. fst c = n) new1) \<le> (if name p = n then maxRetries svc + 1 else 0)" for n
  proof (cases "name p = n")
    case True
    with n1(2) show ?thesis by (simp add: le_trans [OF length_filter_le])
  next
    case False
    with n1(3) have "filter (\<lambda>c. fst c = n) new1 = []" by (auto simp: filter_empty_conv)
    then show ?thesis by simp
  qed
  show ?case
  proof (cases r)
    case (Some res)
    with Cons.prems rl have "out = (Some res, le1, svc1, w1)" by simp
    with n1 f1 show ?thesis
      by (intro exI [of _ new1]) (auto intro: le_trans [OF f1] simp: trans_le_add1)
  next
    case None
    with Cons.prems rl have "providersLoop env email key ps le1 svc1 w1 = out" by simp
    from Cons.IH [OF this] obtain new2 where n2: "calls (snd (snd (snd out))) = calls w1 @ new2"
      "length new2 \<le> length ps * (maxRetries svc1 + 1)"
      "\<And>n. length (filter (\<lambda>c. fst c = n) new2) \<le> count_list (map name ps) n * (maxRetries svc1 + 1)"
      by auto
    have "length (filter (\<lambda>c. fst c = n) (new1 @ new2))
        \<le> count_list (map name (p # ps)) n * (maxRetries svc + 1)" for n
      using f1 [of n] n2(3) [of n] m by (auto simp: algebra_simps)
    with n1 n2 m show ?thesis
      by (intro exI [of _ "new1 @ new2"]) (auto simp: algebra_simps)
  qed
qed


subsection \<open>Concrete runs\<close>

lemma ordinary_message:
  "\<not> str_includes ''Bad provider failed to send email'' ''Circuit breaker is OPEN''"
  by (simp add: str_includes_def sublist_code prefix_code)

lemma liar_message:
  "str_includes ''upstream: Circuit breaker is OPEN'' ''Circuit breaker is OPEN''"
  by (simp add: str_includes_def sublist_code prefix_code)

lemma marker_message: "str_includes ''Circuit breaker is OPEN'' ''Circuit breaker is OPEN''"
  by (simp add: str_includes_def)

lemmas example_defs =
  exampleService_def exampleOptions_def exampleEnv_def exampleEmail_def world0_def
  EmailService_def or_default_def number_or_def RateLimiter_def CircuitBreaker_def

lemmas engine_defs =
  sendEmail_def generateIdempotencyKey_def isAllowed_def attemptSend_def retryLoop.simps
  breakerCall_def call_def provider_sendEmail_def attemptStatus_def recordSuccess_def
  backoff_def sleep_def timerMs_def backoff_half successResult_def statusEntry_def
  failureResult_def queuedResult_def onSuccess_def onFailure_def Let_def
  breakerOpenMessage_def ordinary_message liar_message marker_message

subsection \<open>Bounded attempts\<close>

lemma distinct_count_list_le1: "distinct xs \<Longrightarrow> count_list xs x \<le> 1"
  by (induction xs) (auto simp: count_list_0_iff)

text \<open>
  The constructor reads the option with \<^verbatim>\<open>options.maxRetries || 3\<close>: a positive option is
  taken as it is, the option \<open>0\<close> gives three retries.
\<close>

lemma EmailService_maxRetries:
  "maxRetries (EmailService (opts\<lparr>opt_maxRetries := Some n\<rparr>) now) = (if n = 0 then 3 else n)"
  by (simp add: EmailService_def or_default_def Let_def)

text \<open>
  A dispatch (\<^verbatim>\<open>attemptSend\<close>, entered by \<^verbatim>\<open>sendEmail\<close> after a cache miss and an
  admission, and by the drain worker) invokes the providers at most
  \<open>length providers * (maxRetries + 1)\<close> times in total and, the provider names being
  distinct, at most \<open>maxRetries + 1\<close> times under any one name, where \<open>maxRetries\<close> is the
  field of the service, which the loops read.
\<close>

lemma attemptSend_bounded_attempts:
  assumes "attemptSend env email key svc w = (r, svc', w')"
  shows "calls w' = calls w @ invoked w w'
     \<and> length (invoked w w') \<le> length (providers svc) * (maxRetries svc + 1)
     \<and> (distinct (map name (providers svc)) \<longrightarrow>
          (\<forall>n. length (filter (\<lambda>c. fst c = n) (invoked w w')) \<le> maxRetries svc + 1))"
proof -
  define svc0 where "svc0 = svc\<lparr>emailStatuses :=
                   AList.update key (statusEntry PENDING (clock w) 0 None) (emailStatuses svc)\<rparr>"
  obtain r1 le1 svc1 w1 where pl:
    "providersLoop env email key (providers svc) None svc0 w = (r1, le1, svc1, w1)"
    by (cases "providersLoop env email key (providers svc) None svc0 w") auto
  have s0: "providers svc0 = providers svc" "maxRetries svc0 = maxRetries svc"
    by (simp_all add: svc0_def)
  from providersLoop_calls [OF pl] obtain new where n: "calls w1 = calls w @ new"
    "length new \<le> length (providers svc) * (maxRetries svc + 1)"
    "\<And>n. length (filter (\<lambda>c. fst c = n) new)
            \<le> count_list (map name (providers svc)) n * (maxRetries svc + 1)"
    by (auto simp: s0)
  have w': "calls w' = calls w1"
    using assms pl
    by (auto simp: attemptSend_def Let_def svc0_def [symmetric] s0 split: option.splits)
  have inv: "invoked w w' = new"
    by (simp add: invoked_def w' n(1))
  have "length (filter (\<lambda>c. fst c = m) new) \<le> maxRetries svc + 1"
    if "distinct (map name (providers svc))" for m
  proof -
    have "count_list (map name (providers svc)) m * (maxRetries svc + 1) \<le> 1 * (maxRetries svc + 1)"
      by (rule mult_le_mono1) (rule distinct_count_list_le1 [OF that])
    with n(3) [of m] show ?thesis by simp
  qed
  with n w' inv show ?thesis by simp
qed

text \<open>
  C3: the bound does not hold for the \<open>maxRetries\<close> that the caller configures. The
  constructor reads the option with \<^verbatim>\<open>options.maxRetries || 3\<close>, so the option \<open>0\<close> (no
  retry, one attempt per provider) is taken as absent. A service configured with one provider
  that always fails and with \<^verbatim>\<open>maxRetries: 0\<close> invokes that provider four times for one
  submission, with three backoff timers in between, where the claim allows \<open>1 * (0 + 1)\<close>
  invocation; the result says \<open>4\<close> attempts.
\<close>

theorem zero_maxRetries_retries_three_times:
  "opt_maxRetries zeroRetryOptions = Some 0
   \<and> map name (providers (EmailService zeroRetryOptions 0)) = [''Bad'']
   \<and> maxRetries (EmailService zeroRetryOptions 0) = 3
   \<and> map fst (invoked world0 (snd (snd zeroRetryRun))) = [''Bad'', ''Bad'', ''Bad'', ''Bad'']
   \<and> sleeps (snd (snd zeroRetryRun)) = [Fin 1050, Fin 2100, Fin 4200]
   \<and> fst zeroRetryRun
       = Inr (failureResult ''order-1'' ''Bad provider failed to send email'' 7390 4)"
  by (simp add: zeroRetryRun_def zeroRetryOptions_def invoked_def example_defs engine_defs)

subsection \<open>Refusals and failures in the retry loop\<close>

lemma breakerCall_refused:
  assumes "map_of (circuitBreakers svc) (name p) = Some cb"
    and "state cb = OPEN" and "clock w < nextAttempt cb"
  shows "breakerCall env svc p email w = (Inl breakerOpenMessage, svc, w)"
  using assms by (simp add: breakerCall_def call_refused AList.update_triv)

lemma breakerCall_failure:
  assumes "map_of (circuitBreakers svc) (name p) = Some cb"
    and "\<not> (state cb = OPEN \<and> clock w < nextAttempt cb)"
    and "outcome (respond env (name p) email (length (calls w))) = Inl msg"
  shows "breakerCall env svc p email w
     = (Inl msg,
        svc\<lparr>circuitBreakers := AList.update (name p)
              (onFailure (if state cb = OPEN then cb\<lparr>state := HALF_OPEN\<rparr> else cb)
                 (clock w + int (latency (respond env (name p) email (length (calls w))))))
              (circuitBreakers svc)\<rparr>,
        w\<lparr>clock := clock w + int (latency (respond env (name p) email (length (calls w)))),
          calls := calls w @ [(name p, email)]\<rparr>)"
  using assms
  by (auto simp: breakerCall_def call_def provider_sendEmail_def Let_def)

lemma includes_marker: "str_includes breakerOpenMessage breakerOpenMessage"
  by (simp add: str_includes_def)

lemma attemptStatus_breakers [simp]:
  "circuitBreakers (attemptStatus key p attempt svc w) = circuitBreakers svc"
  by (simp add: attemptStatus_def)

lemma onFailure_count [simp]: "failureCount (onFailure cb now) = failureCount cb + 1"
  by (simp add: onFailure_def Let_def)


text \<open>
  C5: when the breaker of the provider is \<open>OPEN\<close> and the clock is before \<open>nextAttempt\<close>,
  the attempt is refused: the retry loop of that provider ends at once with the breaker's
  message as last error, the world is unchanged (no invocation of the provider, no backoff
  timer, the clock not moved) and so is the breaker, and the loop over the providers goes
  on with the next one. An ordinary failure (a description without the breaker's message)
  before the last attempt is treated differently: the provider has been invoked, the backoff
  timer is set and the same provider is tried again with the next attempt number.
\<close>

theorem breaker_open_refusal_falls_through:
  "(map_of (circuitBreakers svc) (name p) = Some cb \<and> state cb = OPEN
      \<and> clock w < nextAttempt cb \<and> attempt \<le> maxRetries svc \<longrightarrow>
      retryLoop env email key p attempt le svc w
        = (None, Some breakerOpenMessage, attemptStatus key p attempt svc w, w)
      \<and> providersLoop env email key (p # ps) le svc w
        = providersLoop env email key ps (Some breakerOpenMessage) (attemptStatus key p 0 svc w) w)
   \<and> (map_of (circuitBreakers svc) (name p) = Some cb
      \<and> \<not> (state cb = OPEN \<and> clock w < nextAttempt cb)
      \<and> respond env (name p) email (length (calls w)) = \<lparr>outcome = Inl msg, latency = l\<rparr>
      \<and> \<not> str_includes msg breakerOpenMessage \<and> attempt < maxRetries svc \<longrightarrow>
      retryLoop env email key p attempt le svc w
        = retryLoop env email key p (attempt + 1) (Some msg)
            ((attemptStatus key p attempt svc w)
               \<lparr>circuitBreakers := AList.update (name p)
                  (onFailure (if state cb = OPEN then cb\<lparr>state := HALF_OPEN\<rparr> else cb)
                     (clock w + int l))
                  (circuitBreakers svc)\<rparr>)
            (w\<lparr>clock := clock w + int l
                   + timerMs (calculateBackoffDelay svc attempt (mathRandom env (length (sleeps w))))
                   + int (lag env (length (sleeps w))),
               calls := calls w @ [(name p, email)],
               sleeps := sleeps w
                 @ [calculateBackoffDelay svc attempt (mathRandom env (length (sleeps w)))]\<rparr>))"
proof (intro conjI impI)
  assume a: "map_of (circuitBreakers svc) (name p) = Some cb \<and> state cb = OPEN
      \<and> clock w < nextAttempt cb \<and> attempt \<le> maxRetries svc"
  have bc: "breakerCall env (attemptStatus key p n svc w) p email w
      = (Inl breakerOpenMessage, attemptStatus key p n svc w, w)" for n
    by (rule breakerCall_refused [of _ _ cb]) (use a in simp_all)
  show "retryLoop env email key p attempt le svc w
        = (None, Some breakerOpenMessage, attemptStatus key p attempt svc w, w)"
    by (rule retryLoop_break [OF _ bc includes_marker]) (use a in simp)
  have "retryLoop env email key p 0 le svc w
        = (None, Some breakerOpenMessage, attemptStatus key p 0 svc w, w)"
    by (rule retryLoop_break [OF _ bc includes_marker]) simp
  then show "providersLoop env email key (p # ps) le svc w
        = providersLoop env email key ps (Some breakerOpenMessage) (attemptStatus key p 0 svc w) w"
    by simp
next
  assume a: "map_of (circuitBreakers svc) (name p) = Some cb
      \<and> \<not> (state cb = OPEN \<and> clock w < nextAttempt cb)
      \<and> respond env (name p) email (length (calls w)) = \<lparr>outcome = Inl msg, latency = l\<rparr>
      \<and> \<not> str_includes msg breakerOpenMessage \<and> attempt < maxRetries svc"
  let ?svc2 = "(attemptStatus key p attempt svc w)
               \<lparr>circuitBreakers := AList.update (name p)
                  (onFailure (if state cb = OPEN then cb\<lparr>state := HALF_OPEN\<rparr> else cb)
                     (clock w + int l))
                  (circuitBreakers svc)\<rparr>"
  let ?w2 = "w\<lparr>clock := clock w + int l, calls := calls w @ [(name p, email)]\<rparr>"
  have bc: "breakerCall env (attemptStatus key p attempt svc w) p email w = (Inl msg, ?svc2, ?w2)"
    using a by (subst breakerCall_failure [of _ _ cb _ _ _ msg]) simp_all
  have cd: "calculateBackoffDelay ?svc2 attempt r = calculateBackoffDelay svc attempt r" for r
    by (simp add: calculateBackoffDelay_def attemptStatus_def)
  have weq: "backoff env ?svc2 attempt ?w2
      = w\<lparr>clock := clock w + int l
                   + timerMs (calculateBackoffDelay svc attempt (mathRandom env (length (sleeps w))))
                   + int (lag env (length (sleeps w))),
               calls := calls w @ [(name p, email)],
               sleeps := sleeps w
                 @ [calculateBackoffDelay svc attempt (mathRandom env (length (sleeps w)))]\<rparr>"
    by (simp add: backoff_def sleep_def cd)
  have "retryLoop env email key p attempt le svc w
      = retryLoop env email key p (attempt + 1) (Some msg) ?svc2 (backoff env ?svc2 attempt ?w2)"
    by (rule retryLoop_retry [OF _ bc]) (use a in simp_all)
  then show "retryLoop env email key p attempt le svc w
        = retryLoop env email key p (attempt + 1) (Some msg) ?svc2
            (w\<lparr>clock := clock w + int l
                   + timerMs (calculateBackoffDelay svc attempt (mathRandom env (length (sleeps w))))
                   + int (lag env (length (sleeps w))),
               calls := calls w @ [(name p, email)],
               sleeps := sleeps w
                 @ [calculateBackoffDelay svc attempt (mathRandom env (length (sleeps w)))]\<rparr>)"
    unfolding weq .
qed

theorem breaker_open_refusal_falls_through_witness:
  "map_of (circuitBreakers openService) ''Bad'' = Some openBreaker \<and> state openBreaker = OPEN
   \<and> clock world0 < nextAttempt openBreaker \<and> 0 \<le> maxRetries openService
   \<and> retryLoop exampleEnv exampleEmail ''order-1'' \<lparr>name = ''Bad''\<rparr> 0 None openService world0
       = (None, Some ''Circuit breaker is OPEN'',
          attemptStatus ''order-1'' \<lparr>name = ''Bad''\<rparr> 0 openService world0, world0)
   \<and> map fst (calls (snd (snd (snd (providersLoop exampleEnv exampleEmail ''order-1''
         [\<lparr>name = ''Bad''\<rparr>, \<lparr>name = ''Good''\<rparr>] None openService world0))))) = [''Good'']
   \<and> map_of (circuitBreakers exampleService) ''Bad'' = Some (CircuitBreaker 5 60000 0)
   \<and> respond exampleEnv ''Bad'' exampleEmail 0
       = \<lparr>outcome = Inl ''Bad provider failed to send email'', latency = 10\<rparr>
   \<and> (0::nat) < maxRetries exampleService
   \<and> map fst (calls (snd (snd (snd (retryLoop exampleEnv exampleEmail ''order-1''
         \<lparr>name = ''Bad''\<rparr> 0 None exampleService world0))))) = [''Bad'', ''Bad'']
   \<and> sleeps (snd (snd (snd (retryLoop exampleEnv exampleEmail ''order-1''
         \<lparr>name = ''Bad''\<rparr> 0 None exampleService world0)))) = [Fin 1050]"
  using breaker_open_refusal_falls_through [where svc = openService and p = "\<lparr>name = ''Bad''\<rparr>"
      and cb = openBreaker and w = world0 and attempt = 0 and env = exampleEnv
      and email = exampleEmail and key = "''order-1''" and le = None
      and ps = "[\<lparr>name = ''Good''\<rparr>]" and msg = "[]" and l = 0]
    breaker_open_refusal_falls_through [where svc = exampleService and p = "\<lparr>name = ''Bad''\<rparr>"
      and cb = "CircuitBreaker 5 60000 0" and w = world0 and attempt = 0 and env = exampleEnv
      and email = exampleEmail and key = "''order-1''" and le = None
      and ps = "[]" and msg = "''Bad provider failed to send email''" and l = 10]
  by (simp add: openService_def openBreaker_def example_defs engine_defs)

text \<open>
  C10: whatever made the breaker-gated call fail, the retry loop decides by the test
  \<^verbatim>\<open>error.message.includes("Circuit breaker is OPEN")\<close> alone. So a failure of the provider
  itself whose description contains that text ends the retry loop of the provider at once
  (the provider invoked once, no backoff timer) and the loop over the providers goes on with
  the next one; the breaker has counted that failure, its counter is one higher. After a
  refusal by the breaker the breaker is as it was.
\<close>

theorem marker_in_transport_failure:
  "(breakerCall env (attemptStatus key p attempt svc w) p email w = (Inl msg, svc2, w2)
      \<and> attempt \<le> maxRetries svc \<longrightarrow>
      retryLoop env email key p attempt le svc w
        = (if str_includes msg breakerOpenMessage then (None, Some msg, svc2, w2)
           else if attempt < maxRetries svc
           then retryLoop env email key p (attempt + 1) (Some msg) svc2 (backoff env svc2 attempt w2)
           else (None, Some msg, svc2, w2)))
   \<and> (map_of (circuitBreakers svc) (name p) = Some cb
      \<and> \<not> (state cb = OPEN \<and> clock w < nextAttempt cb)
      \<and> respond env (name p) email (length (calls w)) = \<lparr>outcome = Inl msg, latency = l\<rparr>
      \<and> str_includes msg breakerOpenMessage \<and> attempt \<le> maxRetries svc \<longrightarrow>
      retryLoop env email key p attempt le svc w
        = (None, Some msg,
           (attemptStatus key p attempt svc w)
             \<lparr>circuitBreakers := AList.update (name p)
                (onFailure (if state cb = OPEN then cb\<lparr>state := HALF_OPEN\<rparr> else cb)
                   (clock w + int l))
                (circuitBreakers svc)\<rparr>,
           w\<lparr>clock := clock w + int l, calls := calls w @ [(name p, email)]\<rparr>)
      \<and> failureCount (onFailure (if state cb = OPEN then cb\<lparr>state := HALF_OPEN\<rparr> else cb)
                         (clock w + int l))
          = failureCount cb + 1
      \<and> providersLoop env email key (p # ps) le svc w
        = providersLoop env email key ps (Some msg)
            ((attemptStatus key p 0 svc w)
               \<lparr>circuitBreakers := AList.update (name p)
                  (onFailure (if state cb = OPEN then cb\<lparr>state := HALF_OPEN\<rparr> else cb)
                     (clock w + int l))
                  (circuitBreakers svc)\<rparr>)
            (w\<lparr>clock := clock w + int l, calls := calls w @ [(name p, email)]\<rparr>))
   \<and> (map_of (circuitBreakers svc) (name p) = Some cb \<and> state cb = OPEN
      \<and> clock w < nextAttempt cb \<and> attempt \<le> maxRetries svc \<longrightarrow>
      retryLoop env email key p attempt le svc w
        = (None, Some breakerOpenMessage, attemptStatus key p attempt svc w, w)
      \<and> map_of (circuitBreakers (attemptStatus key p attempt svc w)) (name p) = Some cb)"
proof (intro conjI impI)
  assume a: "breakerCall env (attemptStatus key p attempt svc w) p email w = (Inl msg, svc2, w2)
      \<and> attempt \<le> maxRetries svc"
  then have bc: "breakerCall env (attemptStatus key p attempt svc w) p email w = (Inl msg, svc2, w2)"
    and le: "attempt \<le> maxRetries svc" by simp_all
  show "retryLoop env email key p attempt le svc w
        = (if str_includes msg breakerOpenMessage then (None, Some msg, svc2, w2)
           else if attempt < maxRetries svc
           then retryLoop env email key p (attempt + 1) (Some msg) svc2 (backoff env svc2 attempt w2)
           else (None, Some msg, svc2, w2))"
    using le by (subst retryLoop.simps) (simp add: bc)
next
  assume a: "map_of (circuitBreakers svc) (name p) = Some cb
      \<and> \<not> (state cb = OPEN \<and> clock w < nextAttempt cb)
      \<and> respond env (name p) email (length (calls w)) = \<lparr>outcome = Inl msg, latency = l\<rparr>
      \<and> str_includes msg breakerOpenMessage \<and> attempt \<le> maxRetries svc"
  let ?cb2 = "onFailure (if state cb = OPEN then cb\<lparr>state := HALF_OPEN\<rparr> else cb) (clock w + int l)"
  let ?w2 = "w\<lparr>clock := clock w + int l, calls := calls w @ [(name p, email)]\<rparr>"
  have bc: "breakerCall env (attemptStatus key p n svc w) p email w
      = (Inl msg, (attemptStatus key p n svc w)
                    \<lparr>circuitBreakers := AList.update (name p) ?cb2 (circuitBreakers svc)\<rparr>, ?w2)" for n
    using a by (subst breakerCall_failure [of _ _ cb _ _ _ msg]) simp_all
  show "retryLoop env email key p attempt le svc w
        = (None, Some msg,
           (attemptStatus key p attempt svc w)
             \<lparr>circuitBreakers := AList.update (name p) ?cb2 (circuitBreakers svc)\<rparr>, ?w2)"
    by (rule retryLoop_break [OF _ bc]) (use a in simp_all)
  show "failureCount ?cb2 = failureCount cb + 1"
    by simp
  have "retryLoop env email key p 0 le svc w
        = (None, Some msg,
           (attemptStatus key p 0 svc w)
             \<lparr>circuitBreakers := AList.update (name p) ?cb2 (circuitBreakers svc)\<rparr>, ?w2)"
    by (rule retryLoop_break [OF _ bc]) (use a in simp_all)
  then show "providersLoop env email key (p # ps) le svc w
        = providersLoop env email key ps (Some msg)
            ((attemptStatus key p 0 svc w)
               \<lparr>circuitBreakers := AList.update (name p) ?cb2 (circuitBreakers svc)\<rparr>) ?w2"
    by simp
next
  assume a: "map_of (circuitBreakers svc) (name p) = Some cb \<and> state cb = OPEN
      \<and> clock w < nextAttempt cb \<and> attempt \<le> maxRetries svc"
  have bc: "breakerCall env (attemptStatus key p attempt svc w) p email w
      = (Inl breakerOpenMessage, attemptStatus key p attempt svc w, w)"
    by (rule breakerCall_refused [of _ _ cb]) (use a in simp_all)
  show "retryLoop env email key p attempt le svc w
        = (None, Some breakerOpenMessage, attemptStatus key p attempt svc w, w)"
    by (rule retryLoop_break [OF _ bc includes_marker]) (use a in simp)
  show "map_of (circuitBreakers (attemptStatus key p attempt svc w)) (name p) = Some cb"
    using a by simp
qed

theorem marker_in_transport_failure_witness:
  "map_of (circuitBreakers liarService) ''Liar'' = Some (CircuitBreaker 5 60000 0)
   \<and> respond exampleEnv ''Liar'' exampleEmail 0
       = \<lparr>outcome = Inl ''upstream: Circuit breaker is OPEN'', latency = 10\<rparr>
   \<and> str_includes ''upstream: Circuit breaker is OPEN'' breakerOpenMessage
   \<and> 0 \<le> maxRetries liarService
   \<and> breakerCall exampleEnv (attemptStatus ''order-1'' \<lparr>name = ''Liar''\<rparr> 0 liarService world0)
         \<lparr>name = ''Liar''\<rparr> exampleEmail world0
       = (Inl ''upstream: Circuit breaker is OPEN'',
          (attemptStatus ''order-1'' \<lparr>name = ''Liar''\<rparr> 0 liarService world0)
            \<lparr>circuitBreakers := [(''Liar'', (CircuitBreaker 5 60000 0)\<lparr>failureCount := 1\<rparr>),
                                 (''Good'', CircuitBreaker 5 60000 0)]\<rparr>,
          world0\<lparr>clock := 10, calls := [(''Liar'', exampleEmail)]\<rparr>)
   \<and> retryLoop exampleEnv exampleEmail ''order-1'' \<lparr>name = ''Liar''\<rparr> 0 None liarService world0
       = (None, Some ''upstream: Circuit breaker is OPEN'',
          (attemptStatus ''order-1'' \<lparr>name = ''Liar''\<rparr> 0 liarService world0)
            \<lparr>circuitBreakers := [(''Liar'', (CircuitBreaker 5 60000 0)\<lparr>failureCount := 1\<rparr>),
                                 (''Good'', CircuitBreaker 5 60000 0)]\<rparr>,
          world0\<lparr>clock := 10, calls := [(''Liar'', exampleEmail)]\<rparr>)
   \<and> map fst (calls (snd (snd (snd (providersLoop exampleEnv exampleEmail ''order-1''
         [\<lparr>name = ''Liar''\<rparr>, \<lparr>name = ''Good''\<rparr>] None liarService world0)))))
       = [''Liar'', ''Good'']
   \<and> map_of (circuitBreakers openService) ''Bad'' = Some openBreaker \<and> state openBreaker = OPEN
   \<and> clock world0 < nextAttempt openBreaker \<and> 0 \<le> maxRetries openService
   \<and> map_of (circuitBreakers (attemptStatus ''order-1'' \<lparr>name = ''Bad''\<rparr> 0 openService world0))
         ''Bad'' = Some openBreaker"
  using marker_in_transport_failure [where svc = liarService and p = "\<lparr>name = ''Liar''\<rparr>"
      and cb = "CircuitBreaker 5 60000 0" and w = world0 and attempt = 0 and env = exampleEnv
      and email = exampleEmail and key = "''order-1''" and le = None
      and ps = "[\<lparr>name = ''Good''\<rparr>]" and msg = "''upstream: Circuit breaker is OPEN''"
      and l = 10
      and ?svc2.0 = "(attemptStatus ''order-1'' \<lparr>name = ''Liar''\<rparr> 0 liarService world0)
            \<lparr>circuitBreakers := [(''Liar'', (CircuitBreaker 5 60000 0)\<lparr>failureCount := 1\<rparr>),
                                 (''Good'', CircuitBreaker 5 60000 0)]\<rparr>"
      and ?w2.0 = "world0\<lparr>clock := 10, calls := [(''Liar'', exampleEmail)]\<rparr>"]
    marker_in_transport_failure [where svc = openService and p = "\<lparr>name = ''Bad''\<rparr>"
      and cb = openBreaker and w = world0 and attempt = 0 and env = exampleEnv
      and email = exampleEmail and key = "''order-1''" and le = None
      and ps = "[]" and msg = "[]" and l = 0
      and ?svc2.0 = openService and ?w2.0 = world0]
  by (simp add: liarService_def openService_def openBreaker_def example_defs engine_defs)

subsection \<open>Duplicate submissions\<close>

text \<open>
  C1: when the success cache has an entry for the key of the message, \<^verbatim>\<open>sendEmail\<close>
  returns that entry and changes neither the service nor the world: no provider is invoked
  and no event is emitted.
\<close>

theorem sendEmail_cache_hit:
  assumes "map_of (sentEmails svc) (generateIdempotencyKey env email) = Some cached"
  shows "sendEmail env email svc w = (Inr cached, svc, w)
     \<and> calls (snd (snd (sendEmail env email svc w))) = calls w
     \<and> emitted (snd (snd (sendEmail env email svc w))) = emitted w"
  using assms by (simp add: sendEmail_def)

theorem sendEmail_cache_hit_witness:
  "map_of (sentEmails (fst (snd exampleDispatch))) (generateIdempotencyKey exampleEnv exampleEmail)
     = Some (successResult \<lparr>delivery_id = ''uuid-1'', delivery_timestamp = 5\<rparr> \<lparr>name = ''Good''\<rparr> 0)
   \<and> sendEmail exampleEnv exampleEmail (fst (snd exampleDispatch)) (snd (snd exampleDispatch))
     = (Inr (successResult \<lparr>delivery_id = ''uuid-1'', delivery_timestamp = 5\<rparr> \<lparr>name = ''Good''\<rparr> 0),
        fst (snd exampleDispatch), snd (snd exampleDispatch))"
  using sendEmail_cache_hit [of "fst (snd exampleDispatch)" exampleEnv exampleEmail
      "successResult \<lparr>delivery_id = ''uuid-1'', delivery_timestamp = 5\<rparr> \<lparr>name = ''Good''\<rparr> 0"
      "snd (snd exampleDispatch)"]
  by (simp add: exampleDispatch_def example_defs engine_defs)

subsection \<open>The tables are kept consistent\<close>

lemma registry_inv_status:
  assumes "registry_inv svc" and "status e \<noteq> SENT"
  shows "registry_inv (svc\<lparr>emailStatuses := AList.update key e (emailStatuses svc)\<rparr>)"
  using assms by (auto simp: registry_inv_def AList.distinct_update AList.update_conv')

lemma registry_inv_other [simp]:
  "registry_inv (svc\<lparr>rateLimiter := rl\<rparr>) = registry_inv svc"
  "registry_inv (svc\<lparr>queue := q\<rparr>) = registry_inv svc"
  "registry_inv (svc\<lparr>processing := b\<rparr>) = registry_inv svc"
  by (simp_all add: registry_inv_def)

lemma registry_inv_attemptStatus:
  "registry_inv svc \<Longrightarrow> registry_inv (attemptStatus key p attempt svc w)"
  unfolding attemptStatus_def by (rule registry_inv_status) (simp_all add: statusEntry_def)

lemma registry_inv_breakers:
  "registry_inv svc \<Longrightarrow>
   registry_inv (svc\<lparr>circuitBreakers := AList.update k cb (circuitBreakers svc)\<rparr>)"
  by (auto simp: registry_inv_def AList.dom_update)

lemma registry_inv_recordSuccess:
  "registry_inv svc \<Longrightarrow> registry_inv (fst (recordSuccess key email res svc w))"
  by (auto simp: registry_inv_def recordSuccess_def AList.distinct_update AList.update_conv')

lemma breakers_keys:
  "fst ` set (foldl (\<lambda>m p. AList.update (name p) cb m) init ps) = fst ` set init \<union> name ` set ps"
  by (induction ps arbitrary: init) (auto simp: AList.dom_update)

lemma EmailService_registry_inv: "registry_inv (EmailService opts now)"
  by (simp add: registry_inv_def EmailService_def Let_def breakers_keys)

lemma engine_step_registry_inv:
  assumes "engine_step key svc svc'" and "registry_inv svc"
  shows "registry_inv svc'"
  using assms
proof (induction rule: engine_step.induct)
  case (queued key svc email now)
  have "registry_inv (svc\<lparr>emailStatuses := AList.update key (statusEntry QUEUED now 0 None)
      (emailStatuses svc)\<rparr>)"
    by (rule registry_inv_status [OF queued]) (simp add: statusEntry_def)
  then show ?case by (simp add: registry_inv_def)
next
  case (pending key svc now)
  show ?case by (rule registry_inv_status [OF pending]) (simp add: statusEntry_def)
next
  case (failed key svc msg now n)
  show ?case by (rule registry_inv_status [OF failed]) (simp add: failureResult_def)
qed (simp_all add: registry_inv_attemptStatus registry_inv_breakers registry_inv_recordSuccess)

lemma engine_state_registry_inv: "engine_state svc \<Longrightarrow> registry_inv svc"
  by (induction rule: engine_state.induct)
     (auto intro: EmailService_registry_inv engine_step_registry_inv)

text \<open>A section that runs on behalf of one key leaves the status of every other key alone.\<close>

lemma engine_step_untouched:
  assumes "engine_step key svc svc'" and "k \<noteq> key"
  shows "getEmailStatus svc' k = getEmailStatus svc k"
  using assms
  by (induction rule: engine_step.induct)
     (simp_all add: getEmailStatus_def attemptStatus_def recordSuccess_def AList.update_conv')

subsection \<open>What a dispatch writes\<close>

lemma breakerCall_tables:
  assumes "breakerCall env svc p email w = (r, svc', w')"
  shows "emailStatuses svc' = emailStatuses svc" and "sentEmails svc' = sentEmails svc"
  using assms by (auto simp: breakerCall_def split: option.splits prod.splits)

lemma retryLoop_untouched:
  assumes "retryLoop env email key p attempt le svc w = out" and "k \<noteq> key"
  shows "map_of (emailStatuses (fst (snd (snd out)))) k = map_of (emailStatuses svc) k"
  using assms
proof (induction rule: retryLoop_cases)
  case (stop attempt le svc w)
  then show ?case by simp
next
  case (success attempt le svc w d svc2 w2)
  then show ?case
    by (simp add: recordSuccess_def breakerCall_tables [OF success(2)] attemptStatus_def
        AList.update_conv')
next
  case (brk attempt le svc w msg svc2 w2)
  then show ?case
    by (simp add: breakerCall_tables [OF brk(2)] attemptStatus_def AList.update_conv')
next
  case (final attempt le svc w msg svc2 w2)
  then show ?case
    by (simp add: breakerCall_tables [OF final(2)] attemptStatus_def AList.update_conv')
next
  case (retry attempt le svc w msg svc2 w2 out)
  then show ?case
    by (simp add: breakerCall_tables [OF retry(2)] attemptStatus_def AList.update_conv')
qed

lemma retryLoop_sent:
  assumes "retryLoop env email key p attempt le svc w = out"
    and "out = (Some res, le', svc', w')"
  shows "delivered_by env email key (name p) res svc' w'"
  using assms
proof (induction rule: retryLoop_cases)
  case (success attempt le svc w d svc2 w2)
  from breakerCall_Inr [OF success(2)] success(3) show ?case
    by (auto simp: delivered_by_def recordSuccess_def successResult_def AList.update_conv')
next
  case (retry attempt le svc w msg svc2 w2 out)
  from retry(5) [OF retry(6)] show ?case .
qed simp_all

lemma retryLoop_tables_none:
  assumes "retryLoop env email key p attempt le svc w = out" and "fst out = None"
  shows "sentEmails (fst (snd (snd out))) = sentEmails svc"
  using assms
proof (induction rule: retryLoop_cases)
  case (stop attempt le svc w)
  then show ?case by simp
next
  case (success attempt le svc w d svc2 w2)
  then show ?case by simp
next
  case (brk attempt le svc w msg svc2 w2)
  then show ?case by (simp add: breakerCall_tables [OF brk(2)] attemptStatus_def)
next
  case (final attempt le svc w msg svc2 w2)
  then show ?case by (simp add: breakerCall_tables [OF final(2)] attemptStatus_def)
next
  case (retry attempt le svc w msg svc2 w2 out)
  from retry(5) [OF retry(6)] show ?case
    by (simp add: breakerCall_tables [OF retry(2)] attemptStatus_def)
qed



lemma providersLoop_untouched:
  "providersLoop env email key ps le svc w = out \<Longrightarrow> k \<noteq> key \<Longrightarrow>
   map_of (emailStatuses (fst (snd (snd out)))) k = map_of (emailStatuses svc) k"
proof (induction ps arbitrary: le svc w)
  case Nil
  then show ?case by auto
next
  case (Cons p ps)
  obtain r le1 svc1 w1 where rl: "retryLoop env email key p 0 le svc w = (r, le1, svc1, w1)"
    by (cases "retryLoop env email key p 0 le svc w") auto
  from retryLoop_untouched [OF rl Cons.prems(2)]
  have u1: "map_of (emailStatuses svc1) k = map_of (emailStatuses svc) k" by simp
  show ?case
  proof (cases r)
    case None
    with Cons.prems rl have "providersLoop env email key ps le1 svc1 w1 = out" by simp
    from Cons.IH [OF this Cons.prems(2)] u1 show ?thesis by simp
  next
    case (Some res)
    with Cons.prems rl u1 show ?thesis by auto
  qed
qed

lemma providersLoop_sent:
  "providersLoop env email key ps le svc w = (Some res, le', svc', w') \<Longrightarrow>
   \<exists>pn. delivered_by env email key pn res svc' w'"
proof (induction ps arbitrary: le svc w)
  case Nil
  then show ?case by auto
next
  case (Cons p ps)
  obtain r le1 svc1 w1 where rl: "retryLoop env email key p 0 le svc w = (r, le1, svc1, w1)"
    by (cases "retryLoop env email key p 0 le svc w") auto
  show ?case
  proof (cases r)
    case None
    with Cons.prems rl have "providersLoop env email key ps le1 svc1 w1 = (Some res, le', svc', w')"
      by simp
    from Cons.IH [OF this] show ?thesis .
  next
    case (Some res1)
    with Cons.prems rl have "retryLoop env email key p 0 le svc w = (Some res, le', svc', w')"
      by auto
    from retryLoop_sent [OF this refl] show ?thesis by blast
  qed
qed

lemma providersLoop_tables_none:
  "providersLoop env email key ps le svc w = (None, le', svc', w') \<Longrightarrow>
   sentEmails svc' = sentEmails svc"
proof (induction ps arbitrary: le svc w)
  case Nil
  then show ?case by auto
next
  case (Cons p ps)
  obtain r le1 svc1 w1 where rl: "retryLoop env email key p 0 le svc w = (r, le1, svc1, w1)"
    by (cases "retryLoop env email key p 0 le svc w") auto
  show ?case
  proof (cases r)
    case None
    from retryLoop_tables_none [OF rl] None have s1: "sentEmails svc1 = sentEmails svc" by simp
    from Cons.prems rl None have "providersLoop env email key ps le1 svc1 w1 = (None, le', svc', w')"
      by simp
    from Cons.IH [OF this] s1 show ?thesis by simp
  next
    case (Some res)
    with Cons.prems rl show ?thesis by auto
  qed
qed

lemma attemptSend_untouched:
  assumes "attemptSend env email key svc w = (r, svc', w')" and "k \<noteq> key"
  shows "getEmailStatus svc' k = getEmailStatus svc k"
proof -
  define svc0 where "svc0 = svc\<lparr>emailStatuses :=
                   AList.update key (statusEntry PENDING (clock w) 0 None) (emailStatuses svc)\<rparr>"
  obtain r1 le1 svc1 w1 where pl:
    "providersLoop env email key (providers svc0) None svc0 w = (r1, le1, svc1, w1)"
    by (cases "providersLoop env email key (providers svc0) None svc0 w") auto
  from providersLoop_untouched [OF pl assms(2)]
  have "map_of (emailStatuses svc1) k = map_of (emailStatuses svc) k"
    using assms(2) by (simp add: svc0_def AList.update_conv')
  with assms pl show ?thesis
    by (auto simp: attemptSend_def getEmailStatus_def Let_def svc0_def [symmetric]
          AList.update_conv' split: option.splits)
qed

lemma attemptSend_result:
  assumes "attemptSend env email key svc w = (Inr res, svc', w')"
  shows "(\<exists>pn. delivered_by env email key pn res svc' w')
     \<or> (status res = FAILED \<and> ident res = Some key \<and> getEmailStatus svc' key = Some res
         \<and> map_of (sentEmails svc') key = map_of (sentEmails svc) key)"
proof -
  define svc0 where "svc0 = svc\<lparr>emailStatuses :=
                   AList.update key (statusEntry PENDING (clock w) 0 None) (emailStatuses svc)\<rparr>"
  obtain r1 le1 svc1 w1 where pl:
    "providersLoop env email key (providers svc0) None svc0 w = (r1, le1, svc1, w1)"
    by (cases "providersLoop env email key (providers svc0) None svc0 w") auto
  show ?thesis
  proof (cases r1)
    case (Some res1)
    with assms pl have "res1 = res" "svc1 = svc'" "w1 = w'"
      by (auto simp: attemptSend_def Let_def svc0_def [symmetric])
    with providersLoop_sent [OF pl [unfolded Some]] show ?thesis by simp
  next
    case None
    show ?thesis
    proof (cases le1)
      case N: None
      with assms pl None show ?thesis
        by (simp add: attemptSend_def Let_def svc0_def [symmetric])
    next
      case (Some msg)
      from providersLoop_tables_none [OF pl [unfolded None]]
      have se: "sentEmails svc1 = sentEmails svc" by (simp add: svc0_def)
      from assms pl None Some se show ?thesis
        by (auto simp: attemptSend_def Let_def svc0_def [symmetric] failureResult_def
              getEmailStatus_def AList.update_conv')
    qed
  qed
qed

text \<open>
  A loop that has made an attempt without returning a result has a last error, so that
  \<^verbatim>\<open>attemptSend\<close> throws only when there is no provider at all.
\<close>

lemma retryLoop_error:
  assumes "retryLoop env email key p attempt le svc w = out"
    and "fst out = None" and "attempt \<le> maxRetries svc \<or> le \<noteq> None"
  shows "fst (snd out) \<noteq> None"
  using assms
proof (induction rule: retryLoop_cases)
  case (retry attempt le svc w msg svc2 w2 out)
  from retry(5) [OF retry(6)] show ?case by simp
qed auto

lemma providersLoop_error:
  "providersLoop env email key ps le svc w = (None, le', svc', w') \<Longrightarrow>
   ps \<noteq> [] \<or> le \<noteq> None \<Longrightarrow> le' \<noteq> None"
proof (induction ps arbitrary: le svc w)
  case Nil
  then show ?case by auto
next
  case (Cons p ps)
  obtain r le1 svc1 w1 where rl: "retryLoop env email key p 0 le svc w = (r, le1, svc1, w1)"
    by (cases "retryLoop env email key p 0 le svc w") auto
  show ?case
  proof (cases r)
    case None
    from retryLoop_error [OF rl] None have "le1 \<noteq> None" by simp
    moreover from Cons.prems(1) rl None
    have "providersLoop env email key ps le1 svc1 w1 = (None, le', svc', w')" by simp
    ultimately show ?thesis by (intro Cons.IH) auto
  next
    case (Some res)
    with Cons.prems(1) rl show ?thesis by auto
  qed
qed

lemma attemptSend_returns:
  assumes "providers svc \<noteq> []"
  shows "\<exists>res. fst (attemptSend env email key svc w) = Inr res"
proof -
  define svc0 where "svc0 = svc\<lparr>emailStatuses :=
                   AList.update key (statusEntry PENDING (clock w) 0 None) (emailStatuses svc)\<rparr>"
  obtain r1 le1 svc1 w1 where pl:
    "providersLoop env email key (providers svc0) None svc0 w = (r1, le1, svc1, w1)"
    by (cases "providersLoop env email key (providers svc0) None svc0 w") auto
  have ne: "providers svc0 \<noteq> []" using assms by (simp add: svc0_def)
  show ?thesis
  proof (cases r1)
    case (Some res)
    with pl show ?thesis by (simp add: attemptSend_def Let_def svc0_def [symmetric])
  next
    case None
    with providersLoop_error [OF pl [unfolded None]] ne obtain msg where "le1 = Some msg"
      by auto
    with pl None show ?thesis by (simp add: attemptSend_def Let_def svc0_def [symmetric])
  qed
qed

lemma attemptSend_settings:
  assumes "attemptSend env email key svc w = (r, svc', w')"
  shows "same_settings svc svc'"
proof -
  define svc0 where "svc0 = svc\<lparr>emailStatuses :=
                   AList.update key (statusEntry PENDING (clock w) 0 None) (emailStatuses svc)\<rparr>"
  obtain r1 le1 svc1 w1 where pl:
    "providersLoop env email key (providers svc0) None svc0 w = (r1, le1, svc1, w1)"
    by (cases "providersLoop env email key (providers svc0) None svc0 w") auto
  from providersLoop_settings [OF pl] have "same_settings svc svc1"
    by (simp add: same_settings_def svc0_def)
  with assms pl show ?thesis
    by (auto simp: attemptSend_def Let_def svc0_def [symmetric] same_settings_def
          split: option.splits)
qed

subsection \<open>Submissions\<close>

lemma sendEmail_cases [consumes 1, case_names hit queued dispatched]:
  assumes run: "sendEmail env email svc w = out"
    and hit: "\<And>cached. map_of (sentEmails svc) (generateIdempotencyKey env email) = Some cached \<Longrightarrow>
        out = (Inr cached, svc, w) \<Longrightarrow> P"
    and queued: "\<And>rl. map_of (sentEmails svc) (generateIdempotencyKey env email) = None \<Longrightarrow>
        isAllowed (rateLimiter svc) (clock w) = (False, rl) \<Longrightarrow>
        out = (Inr (queuedResult (generateIdempotencyKey env email)),
               svc\<lparr>rateLimiter := rl,
                   emailStatuses := AList.update (generateIdempotencyKey env email)
                     (statusEntry QUEUED (clock w) 0 None) (emailStatuses svc),
                   queue := queue svc
                     @ [(email\<lparr>idempotencyKey := Some (generateIdempotencyKey env email)\<rparr>,
                         generateIdempotencyKey env email)]\<rparr>,
               w\<lparr>emitted := emitted w @ [Queued (generateIdempotencyKey env email) email]\<rparr>) \<Longrightarrow> P"
    and dispatched: "\<And>rl. map_of (sentEmails svc) (generateIdempotencyKey env email) = None \<Longrightarrow>
        isAllowed (rateLimiter svc) (clock w) = (True, rl) \<Longrightarrow>
        attemptSend env email (generateIdempotencyKey env email) (svc\<lparr>rateLimiter := rl\<rparr>) w = out \<Longrightarrow> P"
  shows P
proof (cases "map_of (sentEmails svc) (generateIdempotencyKey env email)")
  case (Some cached)
  with run hit show ?thesis by (simp add: sendEmail_def Let_def)
next
  case None
  obtain ok rl where al: "isAllowed (rateLimiter svc) (clock w) = (ok, rl)"
    by (cases "isAllowed (rateLimiter svc) (clock w)") auto
  show ?thesis
  proof (cases ok)
    case True
    with run None al dispatched show ?thesis by (simp add: sendEmail_def Let_def)
  next
    case False
    with run None al queued show ?thesis by (simp add: sendEmail_def Let_def)
  qed
qed

lemma sendEmail_untouched:
  assumes "sendEmail env email svc w = (r, svc', w')" and "k \<noteq> generateIdempotencyKey env email"
  shows "getEmailStatus svc' k = getEmailStatus svc k"
  using assms(1)
proof (cases rule: sendEmail_cases)
  case (hit cached)
  then show ?thesis by simp
next
  case (queued rl)
  with assms(2) show ?thesis by (simp add: getEmailStatus_def AList.update_conv')
next
  case (dispatched rl)
  from attemptSend_untouched [OF dispatched(3) assms(2)] show ?thesis
    by (simp add: getEmailStatus_def)
qed

lemma outage_message: "\<not> str_includes ''temporary outage'' ''Circuit breaker is OPEN''"
  by (simp add: str_includes_def sublist_code prefix_code)

lemma exampleSubmit_value:
  "fst exampleSubmit = Inr exampleSent"
  "emailStatuses (fst (snd exampleSubmit)) = [(''order-1'', exampleSent)]"
  "sentEmails (fst (snd exampleSubmit)) = [(''order-1'', exampleSent)]"
  by (simp_all add: exampleSubmit_def exampleSent_def example_defs engine_defs)

subsection \<open>An operation is a sequence of sections\<close>

text \<open>
  What \<^verbatim>\<open>sendEmail\<close> and \<^verbatim>\<open>attemptSend\<close> do to the service from call to completion is
  a sequence of steps of \<open>engine_step\<close>, all on behalf of the key of the message.
\<close>

lemma breakerCall_steps:
  assumes "breakerCall env svc p email w = (r, svc', w')"
  shows "rtranclp (engine_step key) svc svc'"
proof (cases "map_of (circuitBreakers svc) (name p)")
  case None
  with assms show ?thesis by (simp add: breakerCall_def)
next
  case (Some cb)
  obtain ok cb1 where e: "call_enter cb (clock w) = (ok, cb1)"
    by (cases "call_enter cb (clock w)") auto
  let ?s1 = "svc\<lparr>circuitBreakers := AList.update (name p) cb1 (circuitBreakers svc)\<rparr>"
  have s1: "engine_step key svc ?s1"
    using engine_step.enter [OF Some, where key = key and now = "clock w"] by (simp add: e)
  show ?thesis
  proof (cases ok)
    case False
    with assms Some e have "svc' = ?s1"
      by (auto simp: breakerCall_def call_sections)
    with s1 show ?thesis by auto
  next
    case True
    obtain r1 w1 where f: "provider_sendEmail env p email w = (r1, w1)"
      by (cases "provider_sendEmail env p email w") auto
    have m: "map_of (circuitBreakers ?s1) (name p) = Some cb1"
      by (simp add: AList.update_conv')
    from assms Some e True f
    have "svc' = svc\<lparr>circuitBreakers :=
        AList.update (name p) (call_settle cb1 (\<not> isl r1) (clock w1)) (circuitBreakers svc)\<rparr>"
      by (auto simp: breakerCall_def call_sections)
    then have "svc' = ?s1\<lparr>circuitBreakers :=
        AList.update (name p) (call_settle cb1 (\<not> isl r1) (clock w1)) (circuitBreakers ?s1)\<rparr>"
      by simp
    with engine_step.settle [OF m, where key = key and ok = "\<not> isl r1" and now = "clock w1"]
    have "engine_step key ?s1 svc'" by simp
    with s1 show ?thesis by auto
  qed
qed

lemma retryLoop_steps:
  assumes "retryLoop env email key p attempt le svc w = out"
  shows "rtranclp (engine_step key) svc (fst (snd (snd out)))"
  using assms
proof (induction rule: retryLoop_cases)
  case (stop attempt le svc w)
  then show ?case by simp
next
  case (success attempt le svc w d svc2 w2)
  have "engine_step key svc (attemptStatus key p attempt svc w)" by (rule engine_step.attempt)
  moreover note breakerCall_steps [OF success(2), of key]
  moreover have "engine_step key svc2 (fst (recordSuccess key email (successResult d p attempt) svc2 w2))"
    by (rule engine_step.success)
  ultimately show ?case by simp
next
  case (brk attempt le svc w msg svc2 w2)
  have "engine_step key svc (attemptStatus key p attempt svc w)" by (rule engine_step.attempt)
  with breakerCall_steps [OF brk(2), of key] show ?case by simp
next
  case (final attempt le svc w msg svc2 w2)
  have "engine_step key svc (attemptStatus key p attempt svc w)" by (rule engine_step.attempt)
  with breakerCall_steps [OF final(2), of key] show ?case by simp
next
  case (retry attempt le svc w msg svc2 w2 out)
  have "engine_step key svc (attemptStatus key p attempt svc w)" by (rule engine_step.attempt)
  with breakerCall_steps [OF retry(2), of key] have "rtranclp (engine_step key) svc svc2" by simp
  with retry(5) show ?case by simp
qed

lemma providersLoop_steps:
  "providersLoop env email key ps le svc w = out \<Longrightarrow>
   rtranclp (engine_step key) svc (fst (snd (snd out)))"
proof (induction ps arbitrary: le svc w)
  case Nil
  then show ?case by auto
next
  case (Cons p ps)
  obtain r le1 svc1 w1 where rl: "retryLoop env email key p 0 le svc w = (r, le1, svc1, w1)"
    by (cases "retryLoop env email key p 0 le svc w") auto
  from retryLoop_steps [OF rl] have s1: "rtranclp (engine_step key) svc svc1" by simp
  show ?case
  proof (cases r)
    case None
    with Cons.prems rl have "providersLoop env email key ps le1 svc1 w1 = out" by simp
    from Cons.IH [OF this] s1 show ?thesis by simp
  next
    case (Some res)
    with Cons.prems rl s1 show ?thesis by auto
  qed
qed

lemma attemptSend_steps:
  assumes "attemptSend env email key svc w = (r, svc', w')"
  shows "rtranclp (engine_step key) svc svc'"
proof -
  define svc0 where "svc0 = svc\<lparr>emailStatuses :=
                   AList.update key (statusEntry PENDING (clock w) 0 None) (emailStatuses svc)\<rparr>"
  have s0: "engine_step key svc svc0" unfolding svc0_def by (rule engine_step.pending)
  obtain r1 le1 svc1 w1 where pl:
    "providersLoop env email key (providers svc0) None svc0 w = (r1, le1, svc1, w1)"
    by (cases "providersLoop env email key (providers svc0) None svc0 w") auto
  from providersLoop_steps [OF pl] s0 have s1: "rtranclp (engine_step key) svc svc1" by simp
  have f: "engine_step key svc1
      (svc1\<lparr>emailStatuses := AList.update key (failureResult key msg t n) (emailStatuses svc1)\<rparr>)"
    for msg t n by (rule engine_step.failed)
  show ?thesis
  proof (cases r1)
    case (Some res)
    with assms pl s1 show ?thesis by (simp add: attemptSend_def Let_def svc0_def [symmetric])
  next
    case None
    show ?thesis
    proof (cases le1)
      case N: None
      with assms pl None s1 show ?thesis
        by (simp add: attemptSend_def Let_def svc0_def [symmetric])
    next
      case (Some msg)
      with assms pl None have "svc' = svc1\<lparr>emailStatuses :=
          AList.update key (failureResult key msg (clock w1) (maxRetries svc1 + 1)) (emailStatuses svc1)\<rparr>"
        by (simp add: attemptSend_def Let_def svc0_def [symmetric])
      with f [of msg "clock w1" "maxRetries svc1 + 1"] s1 show ?thesis by simp
    qed
  qed
qed

lemma sendEmail_steps:
  assumes "sendEmail env email svc w = (r, svc', w')"
  shows "rtranclp (engine_step (generateIdempotencyKey env email)) svc svc'"
  using assms
proof (cases rule: sendEmail_cases)
  case (hit cached)
  then show ?thesis by simp
next
  case (queued rl)
  let ?key = "generateIdempotencyKey env email"
  let ?s1 = "svc\<lparr>rateLimiter := rl\<rparr>"
  have "engine_step ?key svc ?s1"
    using engine_step.limiter [where key = ?key and svc = svc and now = "clock w"] queued(2) by simp
  moreover have "engine_step ?key ?s1 svc'"
    using engine_step.queued [where key = ?key and svc = ?s1 and now = "clock w" and email = email]
      queued(3) by simp
  ultimately show ?thesis by simp
next
  case (dispatched rl)
  let ?key = "generateIdempotencyKey env email"
  have "engine_step ?key svc (svc\<lparr>rateLimiter := rl\<rparr>)"
    using engine_step.limiter [where key = ?key and svc = svc and now = "clock w"] dispatched(2) by simp
  with attemptSend_steps [OF dispatched(3)] show ?thesis by simp
qed

lemma drainTurn_steps:
  "\<exists>key. rtranclp (engine_step key) svc (snd (drainTurn svc now))"
proof (cases "queue svc")
  case Nil
  then show ?thesis by (simp add: drainTurn_def)
next
  case (Cons e rest)
  obtain ok rl where al: "isAllowed (rateLimiter svc) now = (ok, rl)"
    by (cases "isAllowed (rateLimiter svc) now") auto
  have 1: "engine_step (snd e) svc (svc\<lparr>rateLimiter := rl\<rparr>)"
    using engine_step.limiter [where key = "snd e" and svc = svc and now = now] al by simp
  have 2: "engine_step (snd e) (svc\<lparr>rateLimiter := rl\<rparr>) (svc\<lparr>rateLimiter := rl, queue := rest\<rparr>)"
    using engine_step.dequeue [where svc = "svc\<lparr>rateLimiter := rl\<rparr>" and e = e and rest = rest] Cons by simp
  from 1 2 have "rtranclp (engine_step (snd e)) svc (snd (drainTurn svc now))"
    by (cases ok) (simp_all add: drainTurn_def Cons al)
  then show ?thesis ..
qed

lemma engine_state_steps:
  "rtranclp (engine_step key) svc svc' \<Longrightarrow> engine_state svc \<Longrightarrow> engine_state svc'"
  by (induction rule: rtranclp_induct) (auto intro: engine_state.step)

lemma sendEmail_engine_state:
  "engine_state svc \<Longrightarrow> engine_state (fst (snd (sendEmail env email svc w)))"
  using sendEmail_steps [of env email svc w] engine_state_steps
  by (cases "sendEmail env email svc w") auto

lemma attemptSend_engine_state:
  "engine_state svc \<Longrightarrow> engine_state (fst (snd (attemptSend env email key svc w)))"
  using attemptSend_steps [of env email key svc w] engine_state_steps
  by (cases "attemptSend env email key svc w") auto

lemma drainTurn_engine_state:
  "engine_state svc \<Longrightarrow> engine_state (snd (drainTurn svc now))"
  using drainTurn_steps [of svc now] engine_state_steps by auto

lemma exampleSubmit_state: "engine_state (fst (snd exampleSubmit))"
  unfolding exampleSubmit_def exampleService_def
  by (rule sendEmail_engine_state [OF engine_state.constructed])

lemma queueRun3_state: "engine_state (fst (snd queueRun3))"
  unfolding queueRun3_def queueRun2_def queueRun1_def queueService_def
  by (intro sendEmail_engine_state engine_state.constructed)

subsection \<open>Terminal statuses\<close>

text \<open>
  C2 (as amended): in every state the service can be in, also with operations in flight, once
  the status table maps a key to an entry with status \<open>SENT\<close>, a \<^verbatim>\<open>sendEmail\<close> that is
  called then never changes that entry: for a message with that key it is a cache hit that
  changes nothing at all, and for any other message the entry is not touched. Nor is the
  entry touched by the drain worker's dispatch of a queued entry with another key, or by any
  section of the code that runs on behalf of another key. An entry with status \<open>FAILED\<close> is
  left alone in the same way by whatever runs on behalf of other keys, but it is not terminal:
  failures are not cached, and a further \<^verbatim>\<open>sendEmail\<close> with the same key that is admitted
  starts a new dispatch, which overwrites it.
\<close>

theorem sent_status_is_terminal:
  assumes "engine_state svc" and "getEmailStatus svc k = Some r"
    and "status r = SENT \<or> status r = FAILED"
  shows "(status r = SENT \<or> generateIdempotencyKey env email \<noteq> k \<longrightarrow>
            getEmailStatus (fst (snd (sendEmail env email svc w))) k = Some r)
     \<and> (status r = SENT \<and> generateIdempotencyKey env email = k \<longrightarrow>
          sendEmail env email svc w = (Inr r, svc, w))
     \<and> (key \<noteq> k \<longrightarrow>
          getEmailStatus (fst (snd (attemptSend env queuedEmail key svc w))) k = Some r)
     \<and> (key \<noteq> k \<and> engine_step key svc svc' \<longrightarrow> getEmailStatus svc' k = Some r)"
proof (intro conjI impI)
  assume a: "status r = SENT \<and> generateIdempotencyKey env email = k"
  from engine_state_registry_inv [OF assms(1)] assms(2) a
  have "map_of (sentEmails svc) k = Some r"
    by (simp add: registry_inv_def getEmailStatus_def)
  with a show hit: "sendEmail env email svc w = (Inr r, svc, w)"
    by (simp add: sendEmail_def Let_def)
next
  assume a: "status r = SENT \<or> generateIdempotencyKey env email \<noteq> k"
  show "getEmailStatus (fst (snd (sendEmail env email svc w))) k = Some r"
  proof (cases "generateIdempotencyKey env email = k")
    case False
    obtain res svc1 w1 where s: "sendEmail env email svc w = (res, svc1, w1)"
      by (cases "sendEmail env email svc w") auto
    from sendEmail_untouched [OF s] False assms(2) show ?thesis by (simp add: s)
  next
    case True
    with a have sent: "status r = SENT" by simp
    from engine_state_registry_inv [OF assms(1)] assms(2) sent
    have "map_of (sentEmails svc) k = Some r"
      by (simp add: registry_inv_def getEmailStatus_def)
    with True assms(2) show ?thesis by (simp add: sendEmail_def Let_def)
  qed
next
  assume a: "key \<noteq> k"
  obtain res svc1 w1 where s: "attemptSend env queuedEmail key svc w = (res, svc1, w1)"
    by (cases "attemptSend env queuedEmail key svc w") auto
  from attemptSend_untouched [OF s, of k] a assms(2)
  show "getEmailStatus (fst (snd (attemptSend env queuedEmail key svc w))) k = Some r"
    by (simp add: s)
next
  assume "key \<noteq> k \<and> engine_step key svc svc'"
  then show "getEmailStatus svc' k = Some r"
    using engine_step_untouched [of key svc svc' k] assms(2) by auto
qed

theorem sent_status_is_terminal_witness:
  "engine_state (fst (snd exampleSubmit))
   \<and> getEmailStatus (fst (snd exampleSubmit)) ''order-1'' = Some exampleSent
   \<and> status exampleSent = SENT
   \<and> generateIdempotencyKey exampleEnv exampleEmail = ''order-1''
   \<and> sendEmail exampleEnv exampleEmail (fst (snd exampleSubmit)) (snd (snd exampleSubmit))
       = (Inr exampleSent, fst (snd exampleSubmit), snd (snd exampleSubmit))
   \<and> generateIdempotencyKey exampleEnv secondEmail = ''order-2''
   \<and> getEmailStatus
         (fst (snd (sendEmail exampleEnv secondEmail (fst (snd exampleSubmit)) (snd (snd exampleSubmit)))))
         ''order-1'' = Some exampleSent
   \<and> getEmailStatus
         (fst (snd (attemptSend exampleEnv secondEmail ''order-2'' (fst (snd exampleSubmit))
            (snd (snd exampleSubmit)))))
         ''order-1'' = Some exampleSent
   \<and> engine_step ''order-2'' (fst (snd exampleSubmit))
         (attemptStatus ''order-2'' \<lparr>name = ''Good''\<rparr> 1 (fst (snd exampleSubmit)) world0)
   \<and> getEmailStatus
         (attemptStatus ''order-2'' \<lparr>name = ''Good''\<rparr> 1 (fst (snd exampleSubmit)) world0)
         ''order-1'' = Some exampleSent"
  using exampleSubmit_state
    sent_status_is_terminal [OF exampleSubmit_state, of "''order-1''" exampleSent exampleEnv
      exampleEmail "snd (snd exampleSubmit)" "''order-2''" secondEmail
      "attemptStatus ''order-2'' \<lparr>name = ''Good''\<rparr> 1 (fst (snd exampleSubmit)) world0"]
    sent_status_is_terminal [OF exampleSubmit_state, of "''order-1''" exampleSent exampleEnv
      secondEmail "snd (snd exampleSubmit)" "''order-2''" secondEmail
      "attemptStatus ''order-2'' \<lparr>name = ''Good''\<rparr> 1 (fst (snd exampleSubmit)) world0"]
    engine_step.attempt [where key = "''order-2''" and svc = "fst (snd exampleSubmit)"
      and p = "\<lparr>name = ''Good''\<rparr>" and attempt = 1 and w = world0]
  by (simp add: getEmailStatus_def exampleSubmit_value generateIdempotencyKey_def exampleEmail_def
      secondEmail_def exampleSent_def successResult_def)

text \<open>
  The claim as stated fails for \<open>FAILED\<close>: the provider is down for the first submission,
  which ends \<open>FAILED\<close>, and up again for the second submission of the same message, which
  overwrites the status and ends \<open>SENT\<close>.
\<close>

theorem failed_status_overwritten:
  "generateIdempotencyKey flakyEnv exampleEmail = ''order-1''
   \<and> fst flakyFirst = Inr (failureResult ''order-1'' ''temporary outage'' 1070 2)
   \<and> getEmailStatus (fst (snd flakyFirst)) ''order-1''
       = Some (failureResult ''order-1'' ''temporary outage'' 1070 2)
   \<and> status (failureResult ''order-1'' ''temporary outage'' 1070 2) = FAILED
   \<and> getEmailStatus (fst (snd flakySecond)) ''order-1''
       = Some (successResult \<lparr>delivery_id = ''uuid-2'', delivery_timestamp = 7\<rparr> \<lparr>name = ''P1''\<rparr> 0)
   \<and> status (successResult \<lparr>delivery_id = ''uuid-2'', delivery_timestamp = 7\<rparr> \<lparr>name = ''P1''\<rparr> 0)
       = SENT"
  by (simp add: flakyFirst_def flakySecond_def flakyEnv_def flakyOptions_def outage_message
      example_defs engine_defs getEmailStatus_def digit_def)

text \<open>
  The dispatch by the drain worker does not consult the success cache, and the entry of a
  message stays in the queue when a second submission of it is sent. So a message that was
  queued and then sent by a second submission is dispatched again when the drain worker
  reaches its entry: the provider delivers it a second time and the status, \<open>SENT\<close> with the
  first delivery id, is overwritten by the second one. Only the entries of other keys are
  safe from the drain worker's dispatch.
\<close>

lemma drain_dispatches_sent_again:
  "map_option status (getEmailStatus (fst (snd drainRun2)) ''order-2'') = Some QUEUED
   \<and> queue (fst (snd drainRun3)) = [(secondEmail, ''order-2'')]
   \<and> getEmailStatus (fst (snd drainRun3)) ''order-2''
       = Some (successResult \<lparr>delivery_id = ''uuid-2'', delivery_timestamp = 7\<rparr> \<lparr>name = ''P1''\<rparr> 0)
   \<and> fst (drainTurn (fst (snd drainRun3)) 125000) = Some (secondEmail, ''order-2'')
   \<and> queue (snd (drainTurn (fst (snd drainRun3)) 125000)) = []
   \<and> getEmailStatus (fst (snd drainRun4)) ''order-2''
       = Some (successResult \<lparr>delivery_id = ''uuid-3'', delivery_timestamp = 7\<rparr> \<lparr>name = ''P1''\<rparr> 0)
   \<and> invoked (snd (snd drainRun2)) (snd (snd drainRun4))
       = [(''P1'', secondEmail), (''P1'', secondEmail)]"
  by (simp add: drainRun1_def drainRun2_def drainRun3_def drainRun4_def drainOptions_def
      flakyEnv_def secondEmail_def outage_message drainTurn_def invoked_def
      example_defs engine_defs getEmailStatus_def digit_def)

subsection \<open>The id of a result\<close>

lemma sendEmail_returns:
  assumes "providers svc \<noteq> []"
  shows "\<exists>res. fst (sendEmail env email svc w) = Inr res"
proof -
  obtain out where out: "sendEmail env email svc w = out" by simp
  then show ?thesis
  proof (cases rule: sendEmail_cases)
    case (hit cached)
    with out show ?thesis by simp
  next
    case (queued rl)
    with out show ?thesis by simp
  next
    case (dispatched rl)
    from attemptSend_returns [of "svc\<lparr>rateLimiter := rl\<rparr>" env email
        "generateIdempotencyKey env email" w] assms dispatched(3) out
    show ?thesis by simp
  qed
qed

text \<open>
  C9 (as amended): a submission that is not a cache hit, to a service with at least one
  provider, returns a result. Its \<^verbatim>\<open>id\<close> is the key of the message when the status is
  \<open>QUEUED\<close> or \<open>FAILED\<close>, and when the status is \<open>SENT\<close> it is the delivery id returned by
  the provider's last invocation. \<^verbatim>\<open>getEmailStatus\<close> of the key returns the recorded
  status (the result itself when \<open>SENT\<close> or \<open>FAILED\<close>). \<^verbatim>\<open>getEmailStatus\<close> of the result's
  \<^verbatim>\<open>id\<close> returns \<^verbatim>\<open>null\<close> provided that id differs from the key and was not a key of the
  status table before; nothing in the code makes a delivery id differ from the keys.
\<close>

theorem sendEmail_result_id:
  assumes "map_of (sentEmails svc) (generateIdempotencyKey env email) = None"
    and "providers svc \<noteq> []"
  shows "\<exists>res svc' w'. sendEmail env email svc w = (Inr res, svc', w')
     \<and> ((status res = QUEUED \<and> ident res = Some (generateIdempotencyKey env email)
           \<and> getEmailStatus svc' (generateIdempotencyKey env email)
               = Some (statusEntry QUEUED (clock w) 0 None))
        \<or> (status res = FAILED \<and> ident res = Some (generateIdempotencyKey env email)
           \<and> getEmailStatus svc' (generateIdempotencyKey env email) = Some res)
        \<or> (status res = SENT
           \<and> getEmailStatus svc' (generateIdempotencyKey env email) = Some res
           \<and> (\<exists>pn d. provider res = Some pn \<and> calls w' \<noteq> [] \<and> last (calls w') = (pn, email)
                 \<and> outcome (respond env pn email (length (calls w') - 1)) = Inr d
                 \<and> ident res = Some (delivery_id d))))
     \<and> (\<forall>i. ident res = Some i \<and> i \<noteq> generateIdempotencyKey env email
            \<and> getEmailStatus svc i = None \<longrightarrow> getEmailStatus svc' i = None)"
proof -
  from sendEmail_returns [OF assms(2), of env email w] obtain res where
    "fst (sendEmail env email svc w) = Inr res" ..
  then obtain svc' w' where s: "sendEmail env email svc w = (Inr res, svc', w')"
    by (cases "sendEmail env email svc w") auto
  have "(status res = QUEUED \<and> ident res = Some (generateIdempotencyKey env email)
           \<and> getEmailStatus svc' (generateIdempotencyKey env email)
               = Some (statusEntry QUEUED (clock w) 0 None))
        \<or> (status res = FAILED \<and> ident res = Some (generateIdempotencyKey env email)
           \<and> getEmailStatus svc' (generateIdempotencyKey env email) = Some res)
        \<or> (status res = SENT
           \<and> getEmailStatus svc' (generateIdempotencyKey env email) = Some res
           \<and> (\<exists>pn d. provider res = Some pn \<and> calls w' \<noteq> [] \<and> last (calls w') = (pn, email)
                 \<and> outcome (respond env pn email (length (calls w') - 1)) = Inr d
                 \<and> ident res = Some (delivery_id d)))"
    using s
  proof (cases rule: sendEmail_cases)
    case (hit cached)
    with assms(1) show ?thesis by simp
  next
    case (queued rl)
    then show ?thesis
      by (simp add: queuedResult_def getEmailStatus_def AList.update_conv')
  next
    case (dispatched rl)
    from attemptSend_result [OF dispatched(3)] show ?thesis
      by (auto simp: delivered_by_def getEmailStatus_def)
  qed
  moreover have "\<forall>i. ident res = Some i \<and> i \<noteq> generateIdempotencyKey env email
            \<and> getEmailStatus svc i = None \<longrightarrow> getEmailStatus svc' i = None"
    using sendEmail_untouched [OF s] by auto
  ultimately show ?thesis using s by blast
qed

theorem sendEmail_result_id_witness:
  "map_of (sentEmails exampleService) (generateIdempotencyKey exampleEnv exampleEmail) = None
   \<and> providers exampleService \<noteq> []
   \<and> sendEmail exampleEnv exampleEmail exampleService world0
       = (Inr exampleSent, fst (snd exampleSubmit), snd (snd exampleSubmit))
   \<and> status exampleSent = SENT \<and> ident exampleSent = Some ''uuid-1''
   \<and> generateIdempotencyKey exampleEnv exampleEmail = ''order-1''
   \<and> getEmailStatus (fst (snd exampleSubmit)) ''order-1'' = Some exampleSent
   \<and> getEmailStatus exampleService ''uuid-1'' = None
   \<and> getEmailStatus (fst (snd exampleSubmit)) ''uuid-1'' = None"
proof -
  have c: "map_of (sentEmails exampleService) (generateIdempotencyKey exampleEnv exampleEmail) = None"
    and p: "providers exampleService \<noteq> []"
    by (simp_all add: example_defs)
  have s: "sendEmail exampleEnv exampleEmail exampleService world0
       = (Inr exampleSent, fst (snd exampleSubmit), snd (snd exampleSubmit))"
    using exampleSubmit_value(1) by (simp add: exampleSubmit_def prod_eq_iff)
  have k: "generateIdempotencyKey exampleEnv exampleEmail = ''order-1''"
    and i: "ident exampleSent = Some ''uuid-1''" "status exampleSent = SENT"
    and n: "getEmailStatus exampleService ''uuid-1'' = None"
    by (simp_all add: generateIdempotencyKey_def exampleEmail_def exampleSent_def
        successResult_def getEmailStatus_def example_defs)
  from sendEmail_result_id [OF c p, of world0] s k i n
  have "getEmailStatus (fst (snd exampleSubmit)) ''order-1'' = Some exampleSent"
    and "getEmailStatus (fst (snd exampleSubmit)) ''uuid-1'' = None"
    by auto
  with c p s k i n show ?thesis by simp
qed

text \<open>
  The claim as stated fails when a provider's delivery id is a key: here the provider uses
  the caller's idempotency key as delivery id, so the \<open>SENT\<close> result's \<^verbatim>\<open>id\<close> is the key
  itself and \<^verbatim>\<open>getEmailStatus\<close> of it returns the result, not \<^verbatim>\<open>null\<close>.
\<close>

theorem sent_id_may_be_fingerprint:
  "map_of (sentEmails queueService) (generateIdempotencyKey echoEnv exampleEmail) = None
   \<and> generateIdempotencyKey echoEnv exampleEmail = ''order-1''
   \<and> fst echoRun
       = Inr (successResult \<lparr>delivery_id = ''order-1'', delivery_timestamp = 5\<rparr> \<lparr>name = ''Good''\<rparr> 0)
   \<and> status (successResult \<lparr>delivery_id = ''order-1'', delivery_timestamp = 5\<rparr> \<lparr>name = ''Good''\<rparr> 0)
       = SENT
   \<and> ident (successResult \<lparr>delivery_id = ''order-1'', delivery_timestamp = 5\<rparr> \<lparr>name = ''Good''\<rparr> 0)
       = Some ''order-1''
   \<and> getEmailStatus (fst (snd echoRun)) ''order-1''
       = Some (successResult \<lparr>delivery_id = ''order-1'', delivery_timestamp = 5\<rparr> \<lparr>name = ''Good''\<rparr> 0)"
  by (simp add: echoRun_def echoEnv_def queueService_def queueOptions_def
      example_defs engine_defs getEmailStatus_def)

subsection \<open>Statistics\<close>

lemma countStatus_card:
  assumes "distinct (map fst tab)"
  shows "countStatus st tab = card {k. \<exists>r. map_of tab k = Some r \<and> status r = st}"
  using assms
proof (induction tab)
  case Nil
  then show ?case by (simp add: countStatus_def)
next
  case (Cons e tab)
  obtain k0 r0 where e: "e = (k0, r0)" by (cases e)
  let ?S = "{k. \<exists>r. map_of tab k = Some r \<and> status r = st}"
  from Cons.prems e have notin: "k0 \<notin> fst ` set tab" and d: "distinct (map fst tab)" by auto
  then have none: "map_of tab k0 = None" by (simp add: map_of_eq_None_iff)
  have fin: "finite ?S"
    by (rule finite_subset [of _ "fst ` set tab"]) (auto dest: map_of_SomeD intro: rev_image_eqI)
  have k0: "k0 \<notin> ?S" using none by simp
  have split: "{k. \<exists>r. map_of (e # tab) k = Some r \<and> status r = st}
      = (if status r0 = st then insert k0 ?S else ?S)"
    using none by (auto simp: e)
  have "countStatus st (e # tab) = (if status r0 = st then 1 else 0) + countStatus st tab"
    by (simp add: countStatus_def e)
  with Cons.IH [OF d] split fin k0 show ?case by simp
qed

text \<open>\<open>digits\<close> writes a number in decimal.\<close>

lemma digit_value: "d < 10 \<Longrightarrow> of_char (digit d) = (48::nat) + d"
proof -
  assume "d < 10"
  then consider "d = 0" | "d = 1" | "d = 2" | "d = 3" | "d = 4" | "d = 5" | "d = 6" | "d = 7"
    | "d = 8" | "d = 9" by (auto simp: numeral_eq_Suc less_Suc_eq)
  then show ?thesis by cases (simp_all add: digit_def)
qed

lemma decimal_digits: "decimal (digits n) = n"
proof (induction n rule: digits.induct)
  case (1 n)
  show ?case
  proof (cases "n < 10")
    case True
    then show ?thesis by (simp add: decimal_def digit_value)
  next
    case False
    with "1.IH" have "decimal (digits (n div 10)) = n div 10" by simp
    with False show ?thesis
      by (subst digits.simps) (simp add: decimal_def digit_value)
  qed
qed

lemma toFixed2_nearest:
  assumes "0 \<le> x"
  shows "\<bar>real (nat \<lfloor>x * 100 + 1 / 2\<rfloor>) - x * 100\<bar> \<le> 1 / 2"
proof -
  have "0 \<le> \<lfloor>x * 100 + 1 / 2\<rfloor>" using assms by simp
  then have n: "real (nat \<lfloor>x * 100 + 1 / 2\<rfloor>) = of_int \<lfloor>x * 100 + 1 / 2\<rfloor>" by simp
  have "of_int \<lfloor>x * 100 + 1 / 2\<rfloor> \<le> x * 100 + 1 / 2"
    and "x * 100 + 1 / 2 < of_int \<lfloor>x * 100 + 1 / 2\<rfloor> + 1"
    by linarith+
  then show ?thesis unfolding n by linarith
qed

lemma toFixed2_nonneg:
  assumes "0 \<le> x"
  shows "toFixed2 (Fin x) = (let n = nat \<lfloor>x * 100 + 1 / 2\<rfloor>
                             in digits (n div 100) @ ''.'' @ [digit (n div 10 mod 10), digit (n mod 10)])"
  using assms by (simp add: toFixed2_def Let_def)

lemma providerStats_returns:
  "name ` set ps \<subseteq> fst ` set cbs \<Longrightarrow> \<exists>l. providerStats cbs ps = Inr l"
proof (induction ps)
  case Nil
  then show ?case by simp
next
  case (Cons p ps)
  then obtain cb where "map_of cbs (name p) = Some cb"
    by (cases "map_of cbs (name p)") (auto simp: map_of_eq_None_iff)
  moreover from Cons obtain l where "providerStats cbs ps = Inr l" by auto
  ultimately show ?case by simp
qed

lemma countStatus_le: "countStatus st tab \<le> length tab"
  unfolding countStatus_def by (rule order_trans [OF length_filter_le]) simp

text \<open>
  The percentage as the code computes it, with the quotient and the product rounded, is
  within the relative error \<open>2^-51\<close> of the exact percentage.
\<close>

lemma percent_value:
  assumes "s \<le> t" and "0 < t" and "t < 2 ^ 53"
  shows "\<exists>v. f64_mul (f64_div (Fin (real s)) (Fin (real t))) (Fin 100) = Fin v \<and> 0 \<le> v
     \<and> \<bar>v - real s / real t * 100\<bar> \<le> real s / real t * 100 / 2 ^ 51"
proof -
  define q where "q = real s / real t"
  define q1 where "q1 = nearest64 q"
  define v where "v = nearest64 (q1 * 100)"
  define u :: real where "u = 1 / 2 ^ 53"
  have t0: "0 < real t" using assms(2) by simp
  have q: "0 \<le> q" "q \<le> 1" using assms by (simp_all add: q_def)
  have g1: "grid64 1" using grid64_int [of 1] by simp
  have g100: "grid64 100" using grid64_int [of 100] by simp
  have q1: "0 \<le> q1" "q1 \<le> 1"
    using nearest64_nonneg [OF q(1)] nearest64_mono [OF q(2)] nearest64_exact [OF g1]
    by (simp_all add: q1_def)
  have r1: "rnd q = Fin q1"
    unfolding q1_def using q1 by (intro rnd_Fin) (simp add: q1_def)
  have "q1 * 100 \<le> 100" using q1 by simp
  from nearest64_mono [OF this] have v100: "v \<le> 100"
    by (simp add: v_def nearest64_exact [OF g100])
  have v0: "0 \<le> v" unfolding v_def using q1 by (intro nearest64_nonneg) simp
  have r2: "rnd (q1 * 100) = Fin v"
    unfolding v_def using v0 v100 by (intro rnd_Fin) (simp add: v_def)
  have val: "f64_mul (f64_div (Fin (real s)) (Fin (real t))) (Fin 100) = Fin v"
    using t0 r1 r2 by (simp add: q_def)
  have err: "\<bar>v - q * 100\<bar> \<le> q * 100 / 2 ^ 51"
  proof (cases "s = 0")
    case True
    then have "q = 0" by (simp add: q_def)
    then show ?thesis by (simp add: v_def q1_def)
  next
    case False
    then have s1: "1 \<le> real s" by simp
    have "real t < real (2 ^ 53)" using assms(3) by (simp only: of_nat_less_iff)
    then have t53: "real t < 2 ^ 53" by simp
    have "1 / 2 ^ 53 \<le> 1 / real t" using t0 t53 by (simp add: frac_le)
    also have "\<dots> \<le> q" unfolding q_def using s1 t0 by (simp add: divide_right_mono)
    finally have lo': "1 / 2 ^ 53 \<le> q" .
    have p53: "(2::real) powi (- 53) = 1 / 2 ^ 53"
      by (simp add: power_int_minus)
    have lo: "2 powi (- 53) \<le> q" using lo' by (simp only: p53)
    have pp: "(2::real) powi (- 1022) \<le> 2 powi (- 53)" by (simp add: p2_le_iff)
    have n1: "2 powi (- 1022) \<le> \<bar>q\<bar>" using lo pp q(1) by linarith
    from nearest64_relative [OF n1] q(1) have e1: "\<bar>q1 - q\<bar> \<le> q * u"
      by (simp add: q1_def u_def)
    have "2 powi (- 53) \<le> q1"
      using nearest64_mono [OF lo] nearest64_exact [OF grid64_powi [of "- 53"]]
      by (simp add: q1_def)
    with pp have "2 powi (- 1022) \<le> q1" by linarith
    with q1(1) have n2: "2 powi (- 1022) \<le> \<bar>q1 * 100\<bar>" by simp
    from nearest64_relative [OF n2] q1(1) have e2: "\<bar>v - q1 * 100\<bar> \<le> q1 * 100 * u"
      by (simp add: v_def u_def)
    have u0: "0 \<le> u" by (simp add: u_def)
    have "q1 \<le> q + q * u" using e1 by linarith
    then have "q1 * (100 * u) \<le> (q + q * u) * (100 * u)"
      using u0 by (intro mult_right_mono) simp_all
    then have a: "q1 * 100 * u \<le> q * 100 * (u + u * u)" by (simp add: algebra_simps)
    have "\<bar>v - q * 100\<bar> \<le> q1 * 100 * u + 100 * (q * u)" using e1 e2 by linarith
    also have "\<dots> \<le> q * 100 * (u + u * u) + 100 * (q * u)" using a by simp
    also have "\<dots> = q * 100 * (2 * u + u * u)" by (simp add: algebra_simps)
    also have "\<dots> \<le> q * 100 * (1 / 2 ^ 51)"
    proof -
      have "2 * u + u * u \<le> 1 / 2 ^ 51" by (simp add: u_def)
      with q(1) show ?thesis by (intro mult_left_mono) simp_all
    qed
    finally show ?thesis by simp
  qed
  from val v0 err show ?thesis unfolding q_def by blast
qed

text \<open>
  The rounding shows in the text: \<open>23\<close> of \<open>160\<close> is \<open>14.375\<close> per cent, but the rounded
  quotient times \<open>100\<close> is rounded to \<open>14.375 - 2^-49\<close>, and \<^verbatim>\<open>toFixed(2)\<close> writes \<open>14.37\<close>.
\<close>

lemma success_rate_rounding:
  "f64_mul (f64_div (Fin 23) (Fin 160)) (Fin 100) = Fin (14375 / 1000 - 1 / 2 ^ 49)
   \<and> toFixed2 (f64_mul (f64_div (Fin 23) (Fin 160)) (Fin 100)) = ''14.37''"
proof -
  have 1: "rnd (23 / 160) = Fin (2589569785738035 / 2 ^ 54)"
    by (subst rnd_eval [where k = "- 3"]) (simp_all add: round_even_def)
  have 2: "rnd (2589569785738035 / 2 ^ 54 * 100) = Fin (14375 / 1000 - 1 / 2 ^ 49)"
    by (subst rnd_eval [where k = 3]) (simp_all add: round_even_def)
  have v: "f64_mul (f64_div (Fin 23) (Fin 160)) (Fin 100) = Fin (14375 / 1000 - 1 / 2 ^ 49)"
    using 1 2 by simp
  have "toFixed2 (Fin (14375 / 1000 - 1 / 2 ^ 49)) = ''14.37''"
    by (simp add: toFixed2_def digit_def)
  with v show ?thesis by simp
qed

lemma rnd_half_fifty: "rnd (1 / 2) = Fin (1 / 2)" "rnd 50 = Fin 50"
proof -
  show "rnd (1 / 2) = Fin (1 / 2)"
    by (subst rnd_eval [where k = "- 1"]) (simp_all add: round_even_def)
  show "rnd 50 = Fin 50"
    using rnd_exact [OF is_double_int [of 50]] by simp
qed

text \<open>
  C8 (as amended): in every state the service can be in, \<^verbatim>\<open>getStats\<close> returns, and what
  it returns gives the number of keys of the status table, the numbers of keys whose status
  is \<open>SENT\<close> and \<open>FAILED\<close>, as queued count the current length of the deferred queue, and
  as success rate the text \<open>0%\<close> when the table is empty and otherwise the percentage
  \<open>sent / total * 100\<close> as computed in binary64, which is within the relative error
  \<open>2^-51\<close> of the exact one, rounded to the nearest hundredth and written with two
  decimals, followed by \<open>%\<close>.
\<close>

theorem getStats_snapshot:
  assumes "engine_state svc" and "length (emailStatuses svc) < 2 ^ 53"
  shows "\<exists>st. getStats svc = Inr st
     \<and> totalEmails st = card {k. getEmailStatus svc k \<noteq> None}
     \<and> sentEmailsStat st = card {k. \<exists>r. getEmailStatus svc k = Some r \<and> status r = SENT}
     \<and> failedEmails st = card {k. \<exists>r. getEmailStatus svc k = Some r \<and> status r = FAILED}
     \<and> queuedEmails st = length (queue svc)
     \<and> (if totalEmails st = 0 then successRate st = ''0%''
        else \<exists>v. f64_mul (f64_div (Fin (real (sentEmailsStat st))) (Fin (real (totalEmails st))))
                    (Fin 100) = Fin v
           \<and> \<bar>v - real (sentEmailsStat st) / real (totalEmails st) * 100\<bar>
               \<le> real (sentEmailsStat st) / real (totalEmails st) * 100 / 2 ^ 51
           \<and> successRate st
               = (let n = nat \<lfloor>v * 100 + 1 / 2\<rfloor>
                  in digits (n div 100) @ ''.'' @ [digit (n div 10 mod 10), digit (n mod 10)])
                 @ ''%''
           \<and> \<bar>real (nat \<lfloor>v * 100 + 1 / 2\<rfloor>) - v * 100\<bar> \<le> 1 / 2)"
proof -
  from engine_state_registry_inv [OF assms(1)] have d: "distinct (map fst (emailStatuses svc))"
    and b: "name ` set (providers svc) \<subseteq> fst ` set (circuitBreakers svc)"
    by (simp_all add: registry_inv_def)
  from providerStats_returns [OF b] obtain ps where ps: "getProviderStats svc = Inr ps"
    by (auto simp: getProviderStats_def)
  define total where "total = length (emailStatuses svc)"
  define sent where "sent = countStatus SENT (emailStatuses svc)"
  define st where "st = \<lparr>totalEmails = total,
      sentEmailsStat = sent,
      failedEmails = countStatus FAILED (emailStatuses svc),
      queuedEmails = length (queue svc),
      successRate = (if total > 0
        then toFixed2 (f64_mul (f64_div (Fin (real sent)) (Fin (real total))) (Fin 100)) @ ''%''
        else ''0%''),
      providersStat = ps\<rparr>"
  have g: "getStats svc = Inr st"
    using ps by (simp add: getStats_def Let_def st_def total_def sent_def)
  have "{k. getEmailStatus svc k \<noteq> None} = fst ` set (emailStatuses svc)"
    by (auto simp: getEmailStatus_def map_of_eq_None_iff)
  then have tc: "card {k. getEmailStatus svc k \<noteq> None} = total"
    using d by (simp add: card_image distinct_card [symmetric] distinct_map total_def)
  have counts: "totalEmails st = card {k. getEmailStatus svc k \<noteq> None}"
    "sentEmailsStat st = card {k. \<exists>r. getEmailStatus svc k = Some r \<and> status r = SENT}"
    "failedEmails st = card {k. \<exists>r. getEmailStatus svc k = Some r \<and> status r = FAILED}"
    "queuedEmails st = length (queue svc)"
    using tc countStatus_card [OF d] by (simp_all add: st_def getEmailStatus_def sent_def)
  have rate: "if totalEmails st = 0 then successRate st = ''0%''
        else \<exists>v. f64_mul (f64_div (Fin (real (sentEmailsStat st))) (Fin (real (totalEmails st))))
                    (Fin 100) = Fin v
           \<and> \<bar>v - real (sentEmailsStat st) / real (totalEmails st) * 100\<bar>
               \<le> real (sentEmailsStat st) / real (totalEmails st) * 100 / 2 ^ 51
           \<and> successRate st
               = (let n = nat \<lfloor>v * 100 + 1 / 2\<rfloor>
                  in digits (n div 100) @ ''.'' @ [digit (n div 10 mod 10), digit (n mod 10)])
                 @ ''%''
           \<and> \<bar>real (nat \<lfloor>v * 100 + 1 / 2\<rfloor>) - v * 100\<bar> \<le> 1 / 2"
  proof (cases "total = 0")
    case True
    then show ?thesis by (simp add: st_def)
  next
    case False
    then have t0: "0 < total" by simp
    have le: "sent \<le> total" unfolding sent_def total_def by (rule countStatus_le)
    have lt: "total < 2 ^ 53" using assms(2) by (simp add: total_def)
    from percent_value [OF le t0 lt] obtain v where
      v: "f64_mul (f64_div (Fin (real sent)) (Fin (real total))) (Fin 100) = Fin v" "0 \<le> v"
      "\<bar>v - real sent / real total * 100\<bar> \<le> real sent / real total * 100 / 2 ^ 51"
      by blast
    have "successRate st
        = (let n = nat \<lfloor>v * 100 + 1 / 2\<rfloor>
           in digits (n div 100) @ ''.'' @ [digit (n div 10 mod 10), digit (n mod 10)]) @ ''%''"
      using t0 v(1) toFixed2_nonneg [OF v(2)] by (simp add: st_def)
    with v toFixed2_nearest [OF v(2)] False show ?thesis
      by (auto simp: st_def)
  qed
  from g counts rate show ?thesis by blast
qed

theorem getStats_snapshot_witness:
  "engine_state (fst (snd queueRun3))
   \<and> length (emailStatuses (fst (snd queueRun3))) < 2 ^ 53
   \<and> getStats (fst (snd queueRun3))
     = Inr \<lparr>totalEmails = 2, sentEmailsStat = 1, failedEmails = 0, queuedEmails = 2,
            successRate = ''50.00%'',
            providersStat = [\<lparr>statName = ''Good'', circuitBreakerState = CLOSED,
                              statFailureCount = 0\<rparr>]\<rparr>
   \<and> card {k. getEmailStatus (fst (snd queueRun3)) k \<noteq> None} = 2
   \<and> card {k. \<exists>r. getEmailStatus (fst (snd queueRun3)) k = Some r \<and> status r = SENT} = 1
   \<and> card {k. \<exists>r. getEmailStatus (fst (snd queueRun3)) k = Some r \<and> status r = FAILED} = 0
   \<and> length (queue (fst (snd queueRun3))) = 2
   \<and> f64_mul (f64_div (Fin (real 1)) (Fin (real 2))) (Fin 100) = Fin 50"
proof -
  have g: "getStats (fst (snd queueRun3))
     = Inr \<lparr>totalEmails = 2, sentEmailsStat = 1, failedEmails = 0, queuedEmails = 2,
            successRate = ''50.00%'',
            providersStat = [\<lparr>statName = ''Good'', circuitBreakerState = CLOSED,
                              statFailureCount = 0\<rparr>]\<rparr>"
    using rnd_half_fifty
    by (simp add: queueRun1_def queueRun2_def queueRun3_def queueService_def queueOptions_def
        secondEmail_def example_defs engine_defs getStats_def getProviderStats_def
        countStatus_def toFixed2_def digit_def)
  have l: "length (emailStatuses (fst (snd queueRun3))) < 2 ^ 53"
    by (simp add: queueRun1_def queueRun2_def queueRun3_def queueService_def queueOptions_def
        secondEmail_def example_defs engine_defs)
  from getStats_snapshot [OF queueRun3_state l] g
  have "card {k. getEmailStatus (fst (snd queueRun3)) k \<noteq> None} = 2"
    and "card {k. \<exists>r. getEmailStatus (fst (snd queueRun3)) k = Some r \<and> status r = SENT} = 1"
    and "card {k. \<exists>r. getEmailStatus (fst (snd queueRun3)) k = Some r \<and> status r = FAILED} = 0"
    and "length (queue (fst (snd queueRun3))) = 2"
    by auto
  moreover have "f64_mul (f64_div (Fin (real 1)) (Fin (real 2))) (Fin 100) = Fin 50"
    using rnd_half_fifty by simp
  ultimately show ?thesis
    using g l queueRun3_state by simp
qed

text \<open>
  The claim as stated fails for the queued count and for the empty table: after one message
  sent and another one submitted twice while the limiter denies, one status is \<open>QUEUED\<close>
  and the queued count is \<open>2\<close>; and for a new service the success rate is \<open>0%\<close>, without
  decimals.
\<close>

theorem queued_count_is_queue_length:
  "getStats (fst (snd queueRun3))
     = Inr \<lparr>totalEmails = 2, sentEmailsStat = 1, failedEmails = 0, queuedEmails = 2,
            successRate = ''50.00%'',
            providersStat = [\<lparr>statName = ''Good'', circuitBreakerState = CLOSED,
                              statFailureCount = 0\<rparr>]\<rparr>
   \<and> countStatus QUEUED (emailStatuses (fst (snd queueRun3))) = 1
   \<and> getStats queueService
     = Inr \<lparr>totalEmails = 0, sentEmailsStat = 0, failedEmails = 0, queuedEmails = 0,
            successRate = ''0%'',
            providersStat = [\<lparr>statName = ''Good'', circuitBreakerState = CLOSED,
                              statFailureCount = 0\<rparr>]\<rparr>"
  using rnd_half_fifty
  by (simp add: queueRun1_def queueRun2_def queueRun3_def queueService_def queueOptions_def
      secondEmail_def example_defs engine_defs getStats_def getProviderStats_def
      countStatus_def toFixed2_def digit_def)

end
